theory Spec2Isabelle
  imports Complex_Main "HOL-Library.Multiset"
begin

section \<open>Coordinate types\<close>

text \<open>
  The three named tuples of the program. Python floats are idealised as real numbers
  throughout: rounding is not modelled.
\<close>

record Coordinates =
  latitude :: real
  longitude :: real
  altitude :: real

record Spherical =
  theta :: real
  phi :: real
  radius :: real

record Horizon =
  sin_h :: real
  cos_h :: real

section \<open>Errors\<close>

text \<open>
  Every exception the modelled code can raise. \<open>ZeroDivisionError\<close> comes from the
  float division and \<open>ValueError\<close> from \<open>math.sqrt\<close> of a negative number in
  the constructor of a satellite; \<open>TypeError\<close> from a call with the wrong number of
  arguments; \<open>RouteNotFound\<close> carries its message.
\<close>

datatype error = ZeroDivisionError | ValueError | TypeError | RouteNotFound string

section \<open>Satellites\<close>

text \<open>
  Satellite objects are compared and hashed by identity, so a satellite is known by its
  reference (its address). The neighbour set of a satellite holds references.
\<close>

type_synonym ref = nat

record satellite =
  sat_id :: string
  coordinates :: Coordinates
  spherical :: Spherical
  horizon :: Horizon
  neighbours :: "ref set"

text \<open>
  \<open>Satellite.__init__\<close>, on coordinates that are numbers already (reading them from
  text is the parser's part). The division raises when the radius is zero and the
  square root raises when its argument is negative; nothing else is checked.
\<close>

definition Satellite_init :: "string \<Rightarrow> Coordinates \<Rightarrow> error + satellite" where
  "Satellite_init ident c =
     (let conv = 2 * pi / 360;
          radius_of_earth = 6371;
          th = (90 - latitude c) * conv;
          ph = longitude c * conv;
          sp = \<lparr>theta = th, phi = ph, radius = radius_of_earth + altitude c\<rparr>
      in if radius sp = 0 then Inl ZeroDivisionError
         else
           let coshorizon = radius_of_earth / radius sp
           in if 1 - coshorizon * coshorizon < 0 then Inl ValueError
              else
                let sinhorizon = sqrt (1 - coshorizon * coshorizon)
                in Inr \<lparr>sat_id = ident, coordinates = c, spherical = sp,
                        horizon = \<lparr>sin_h = sinhorizon, cos_h = coshorizon\<rparr>,
                        neighbours = {}\<rparr>)"

text \<open>\<open>Satellite.lineofsight\<close>.\<close>

definition lineofsight :: "satellite \<Rightarrow> satellite \<Rightarrow> bool" where
  "lineofsight self another =
     (let cossumhorizon = cos_h (horizon self) * cos_h (horizon another)
                          - sin_h (horizon self) * sin_h (horizon another);
          cospsi = cos (theta (spherical self)) * cos (theta (spherical another))
                   + sin (theta (spherical self)) * sin (theta (spherical another))
                     * cos (phi (spherical self) - phi (spherical another))
      in cossumhorizon < cospsi)"


text \<open>
  A satellite object is as its constructor made it, up to its neighbour set (the one
  field that is assigned afterwards).
\<close>

definition constructed :: "satellite \<Rightarrow> bool" where
  "constructed s \<longleftrightarrow> Satellite_init (sat_id s) (coordinates s) = Inr (s\<lparr>neighbours := {}\<rparr>)"

section \<open>The network\<close>

text \<open>
  The state the methods of \<open>Network\<close> work on: the satellite objects, by reference,
  and the membership set \<open>Network._satellites\<close>. A method is a function from the
  state to its outcome (an exception or a value) and the state it leaves.
\<close>

record world =
  store :: "ref \<Rightarrow> satellite"
  satellites :: "ref set"

text \<open>
  The order in which Python iterates a set is not fixed by the language. Every function
  that iterates a set takes the enumeration \<open>it\<close> as a parameter, and the theorems
  assume of it only that it lists the elements of each finite set.
\<close>

type_synonym iteration = "ref set \<Rightarrow> ref list"

definition Network_init :: "(ref \<Rightarrow> satellite) \<Rightarrow> world" where
  "Network_init objs = \<lparr>store = objs, satellites = {}\<rparr>"

text \<open>
  \<open>Network.visible_satellites_at\<close>. The probe \<open>T\<close> is built and dropped: it is a
  value here and never an object of the store. The constructor of the probe can fail.
\<close>

definition visible_satellites_at :: "world \<Rightarrow> Coordinates \<Rightarrow> (error + ref set) \<times> world" where
  "visible_satellites_at w c =
     (case Satellite_init ''T'' c of
        Inl e \<Rightarrow> (Inl e, w)
      | Inr t \<Rightarrow> (Inr {s \<in> satellites w. lineofsight (store w s) t}, w))"

text \<open>\<open>Satellite.connect_with\<close> and the setter of \<open>neighbours\<close>.\<close>

definition connect_with :: "world \<Rightarrow> ref \<Rightarrow> ref \<Rightarrow> world" where
  "connect_with w self neighbour =
     w\<lparr>store := (store w)(self := (store w self)\<lparr>neighbours := insert neighbour (neighbours (store w self))\<rparr>)\<rparr>"

definition set_neighbours :: "world \<Rightarrow> ref \<Rightarrow> ref set \<Rightarrow> world" where
  "set_neighbours w self newset =
     w\<lparr>store := (store w)(self := (store w self)\<lparr>neighbours := newset\<rparr>)\<rparr>"

text \<open>
  \<open>Network.connect\<close>. The loop runs over the neighbour set as it is when the loop
  starts; the one element the loop can add to that very set (the satellite itself, when
  it sees itself) is in it already.
\<close>

definition connect :: "iteration \<Rightarrow> world \<Rightarrow> ref \<Rightarrow> (error + unit) \<times> world" where
  "connect it w satellite =
     (case visible_satellites_at w (coordinates (store w satellite)) of
        (Inl e, w1) \<Rightarrow> (Inl e, w1)
      | (Inr visible, w1) \<Rightarrow>
          (let w2 = set_neighbours w1 satellite visible;
               w3 = w2\<lparr>satellites := insert satellite (satellites w2)\<rparr>
           in (Inr (), foldl (\<lambda>w' n. connect_with w' n satellite) w3
                         (it (neighbours (store w3 satellite))))))"

text \<open>A sequence of \<open>connect\<close> calls; an exception ends it.\<close>

fun connects :: "iteration \<Rightarrow> world \<Rightarrow> ref list \<Rightarrow> (error + unit) \<times> world" where
  "connects it w [] = (Inr (), w)"
| "connects it w (s # ss) =
     (case connect it w s of
        (Inl e, w1) \<Rightarrow> (Inl e, w1)
      | (Inr u, w1) \<Rightarrow> connects it w1 ss)"

text \<open>
  \<open>Network.reset\<close> calls \<open>visible_satellites_at(*s.coordinates)\<close>: the star unpacks
  the named tuple into three positional arguments, for a method that takes one. A call
  is modelled with its argument list, and a list the method's signature does not accept
  raises \<open>TypeError\<close>.
\<close>

datatype arg = Num real | Coord Coordinates

definition star :: "Coordinates \<Rightarrow> arg list" where
  "star c = [Num (latitude c), Num (longitude c), Num (altitude c)]"

fun call_visible_satellites_at :: "world \<Rightarrow> arg list \<Rightarrow> (error + ref set) \<times> world" where
  "call_visible_satellites_at w [Coord c] = visible_satellites_at w c"
| "call_visible_satellites_at w args = (Inl TypeError, w)"

fun reset_loop :: "world \<Rightarrow> ref list \<Rightarrow> (error + unit) \<times> world" where
  "reset_loop w [] = (Inr (), w)"
| "reset_loop w (s # ss) =
     (case call_visible_satellites_at w (star (coordinates (store w s))) of
        (Inl e, w1) \<Rightarrow> (Inl e, w1)
      | (Inr visible, w1) \<Rightarrow> reset_loop (set_neighbours w1 s visible) ss)"

definition reset :: "iteration \<Rightarrow> world \<Rightarrow> (error + unit) \<times> world" where
  "reset it w = reset_loop w (it (satellites w))"

section \<open>The priority queue\<close>

text \<open>
  The queue of \<open>route\<close> is a Python list handled by \<open>heapq.heappush\<close> and
  \<open>heapq.heappop\<close>, modelled here as the library implements them. Its entries are
  tuples \<open>(length, satellite, path)\<close>, compared as Python 2 compares tuples: by the
  first component that differs; two satellite objects by their addresses, two paths as
  lists.
\<close>

type_synonym entry = "int \<times> ref \<times> ref list"

fun path_lt :: "ref list \<Rightarrow> ref list \<Rightarrow> bool" where
  "path_lt [] [] = False"
| "path_lt [] (y # ys) = True"
| "path_lt (x # xs) [] = False"
| "path_lt (x # xs) (y # ys) = (if x = y then path_lt xs ys else x < y)"

fun entry_lt :: "entry \<Rightarrow> entry \<Rightarrow> bool" where
  "entry_lt (l, s, p) (l', s', p') =
     (if l \<noteq> l' then l < l' else if s \<noteq> s' then s < s' else path_lt p p')"

text \<open>
  \<open>heapq._siftdown\<close>: \<open>newitem\<close> travels from \<open>pos\<close> towards \<open>startpos\<close>
  while it is smaller than its parent. The callers below only pass positions inside the
  list.
\<close>

function siftdown_loop :: "entry \<Rightarrow> entry list \<Rightarrow> nat \<Rightarrow> nat \<Rightarrow> entry list" where
  "siftdown_loop newitem heap startpos pos =
     (if pos > startpos then
        (let parentpos = (pos - 1) div 2;
             parent = heap ! parentpos
         in if entry_lt newitem parent
            then siftdown_loop newitem (heap[pos := parent]) startpos parentpos
            else heap[pos := newitem])
      else heap[pos := newitem])"
  by pat_completeness auto
termination
  by (relation "measure (\<lambda>(newitem, heap, startpos, pos). pos)") auto

declare siftdown_loop.simps [simp del]

definition siftdown :: "entry list \<Rightarrow> nat \<Rightarrow> nat \<Rightarrow> entry list" where
  "siftdown heap startpos pos = siftdown_loop (heap ! pos) heap startpos pos"

text \<open>
  \<open>heapq._siftup\<close>: the smaller child moves up until the hole is at a leaf, the item
  is put there and sifted back down.
\<close>

function siftup_loop :: "entry list \<Rightarrow> nat \<Rightarrow> entry list \<times> nat" where
  "siftup_loop heap pos =
     (let endpos = length heap;
          childpos = 2 * pos + 1
      in if childpos < endpos then
           (let rightpos = childpos + 1;
                childpos' = (if rightpos < endpos \<and> \<not> entry_lt (heap ! childpos) (heap ! rightpos)
                             then rightpos else childpos)
            in siftup_loop (heap[pos := heap ! childpos']) childpos')
         else (heap, pos))"
  by pat_completeness auto
termination
  by (relation "measure (\<lambda>(heap, pos). length heap - pos)") auto

declare siftup_loop.simps [simp del]

definition siftup :: "entry list \<Rightarrow> nat \<Rightarrow> entry list" where
  "siftup heap pos =
     (let startpos = pos;
          newitem = heap ! pos
      in case siftup_loop heap pos of
           (heap', pos') \<Rightarrow> siftdown (heap'[pos' := newitem]) startpos pos')"

definition heappush :: "entry list \<Rightarrow> entry \<Rightarrow> entry list" where
  "heappush heap item = siftdown (heap @ [item]) 0 (length (heap @ [item]) - 1)"

text \<open>\<open>heapq.heappop\<close>; \<open>None\<close> is the \<open>IndexError\<close> of popping an empty list.\<close>

definition heappop :: "entry list \<Rightarrow> (entry \<times> entry list) option" where
  "heappop heap =
     (if heap = [] then None
      else
        (let lastelt = last heap;
             heap1 = butlast heap
         in if heap1 \<noteq> [] then
              (let returnitem = heap1 ! 0
               in Some (returnitem, siftup (heap1[0 := lastelt]) 0))
            else Some (lastelt, heap1)))"

section \<open>Routing\<close>

text \<open>
  The \<open>while True\<close> loop of \<open>Network.route\<close>. It only reads the neighbour sets.
  When the queue is empty \<open>heappop\<close> raises \<open>IndexError\<close>, which the handler turns
  into \<open>RouteNotFound\<close>. A loop that does not end has the value \<open>None\<close>. The
  variable \<open>length\<close> of the source is \<open>len\<close> here.
\<close>

partial_function (option) route_loop ::
  "iteration \<Rightarrow> world \<Rightarrow> ref set \<Rightarrow> entry list \<Rightarrow> ref set \<Rightarrow> (error + ref list) option" where
  "route_loop it w finishset queue seen =
     (case heappop queue of
        None \<Rightarrow> Some (Inl (RouteNotFound ''No route found between given coordinates''))
      | Some ((len, satellite, path), queue1) \<Rightarrow>
          if satellite \<notin> seen then
            (if satellite \<in> finishset then Some (Inr (path @ [satellite]))
             else route_loop it w finishset
                    (foldl (\<lambda>q neighbour. heappush q (len + 1, neighbour, path @ [satellite]))
                       queue1 (it (neighbours (store w satellite))))
                    (insert satellite seen))
          else route_loop it w finishset queue1 seen)"

declare route_loop.simps [code]

text \<open>\<open>Network.route\<close>.\<close>

definition route ::
  "iteration \<Rightarrow> world \<Rightarrow> Coordinates \<Rightarrow> Coordinates \<Rightarrow> ((error + ref list) \<times> world) option" where
  "route it w start finish =
     (case visible_satellites_at w start of
        (Inl e, w1) \<Rightarrow> Some (Inl e, w1)
      | (Inr startset, w1) \<Rightarrow>
          if startset = {} then
            Some (Inl (RouteNotFound ''No satellites in sight at start coordinates''), w1)
          else
            (case visible_satellites_at w1 finish of
               (Inl e, w2) \<Rightarrow> Some (Inl e, w2)
             | (Inr finishset, w2) \<Rightarrow>
                 if finishset = {} then
                   Some (Inl (RouteNotFound ''No satellites in sight at finish coordinates''), w2)
                 else
                   map_option (\<lambda>r. (r, w2))
                     (route_loop it w2 finishset (map (\<lambda>s. (0, s, [])) (it startset)) {})))"

section \<open>Specification predicates\<close>

text \<open>
  The heap property of the queue, on the first component (the length) of its entries:
  no entry is shorter than its parent. \<open>hole_ok\<close> is the same property while one
  position is being filled: every edge that does not touch the hole, and from the
  parent of the hole to the children of the hole.
\<close>

definition heap_ok :: "entry list \<Rightarrow> bool" where
  "heap_ok h \<longleftrightarrow> (\<forall>i. 0 < i \<and> i < length h \<longrightarrow> fst (h ! ((i - 1) div 2)) \<le> fst (h ! i))"

definition hole_ok :: "entry list \<Rightarrow> nat \<Rightarrow> bool" where
  "hole_ok h pos \<longleftrightarrow>
     (\<forall>i. 0 < i \<and> i < length h \<and> i \<noteq> pos \<and> (i - 1) div 2 \<noteq> pos
          \<longrightarrow> fst (h ! ((i - 1) div 2)) \<le> fst (h ! i)) \<and>
     (0 < pos \<longrightarrow> (\<forall>i. 0 < i \<and> i < length h \<and> (i - 1) div 2 = pos
          \<longrightarrow> fst (h ! ((pos - 1) div 2)) \<le> fst (h ! i)))"

text \<open>
  Paths of the neighbour graph: each satellite of a path is in the neighbour set of the
  one before it. A route goes from a satellite of the start set to one of the finish
  set; its edge count is \<open>hops\<close>. \<open>spath\<close> is a path that starts in a given set.
\<close>

definition linked :: "world \<Rightarrow> ref list \<Rightarrow> bool" where
  "linked w p \<longleftrightarrow> (\<forall>i. Suc i < length p \<longrightarrow> p ! Suc i \<in> neighbours (store w (p ! i)))"

definition is_route :: "world \<Rightarrow> ref set \<Rightarrow> ref set \<Rightarrow> ref list \<Rightarrow> bool" where
  "is_route w startset finishset p \<longleftrightarrow>
     p \<noteq> [] \<and> hd p \<in> startset \<and> last p \<in> finishset \<and> linked w p"

definition hops :: "ref list \<Rightarrow> nat" where
  "hops p = length p - 1"

definition spath :: "world \<Rightarrow> ref set \<Rightarrow> ref list \<Rightarrow> bool" where
  "spath w S p \<longleftrightarrow> p \<noteq> [] \<and> hd p \<in> S \<and> linked w p"

text \<open>
  The invariant of the loop of \<open>route\<close>: the queue is a heap; every entry is a path
  from the start set with its edge count; an unseen start satellite is still queued;
  an unseen neighbour of a seen satellite is queued no further than one edge past any
  path to that satellite; no seen satellite is in the finish set. \<open>route_loop_post\<close>
  is what the loop delivers: a route of least length, or the failure when there is no
  route at all.
\<close>

definition loop_inv :: "world \<Rightarrow> ref set \<Rightarrow> ref set \<Rightarrow> entry list \<Rightarrow> ref set \<Rightarrow> bool" where
  "loop_inv w S F Q seen \<longleftrightarrow>
     heap_ok Q \<and>
     (\<forall>l s p. (l, s, p) \<in> set Q \<longrightarrow> spath w S (p @ [s]) \<and> l = int (length p)) \<and>
     (\<forall>s. s \<in> S \<and> s \<notin> seen \<longrightarrow> (0, s, []) \<in> set Q) \<and>
     (\<forall>a b p. a \<in> seen \<and> b \<in> neighbours (store w a) \<and> b \<notin> seen \<and> spath w S p \<and> last p = a
        \<longrightarrow> (\<exists>l q. (l, b, q) \<in> set Q \<and> l \<le> int (length p))) \<and>
     seen \<inter> F = {}"

definition route_loop_post :: "world \<Rightarrow> ref set \<Rightarrow> ref set \<Rightarrow> (error + ref list) option \<Rightarrow> bool" where
  "route_loop_post w S F r \<longleftrightarrow>
     (\<exists>path. r = Some (Inr path) \<and> is_route w S F path \<and>
        (\<forall>q. is_route w S F q \<longrightarrow> length path \<le> length q)) \<or>
     (r = Some (Inl (RouteNotFound ''No route found between given coordinates'')) \<and>
        (\<forall>q. \<not> is_route w S F q))"

text \<open>
  Two invariants of the networks that \<open>connect\<close> builds. \<open>closed_net\<close>: the
  membership is finite and the neighbours of a member are members. \<open>sym_inv\<close>: in
  addition every object is as its constructor made it, a member sees each of its
  neighbours, and among members the neighbour relation is symmetric.
\<close>

definition closed_net :: "world \<Rightarrow> bool" where
  "closed_net w \<longleftrightarrow>
     finite (satellites w) \<and> (\<forall>a\<in>satellites w. neighbours (store w a) \<subseteq> satellites w)"

definition sym_inv :: "world \<Rightarrow> bool" where
  "sym_inv w \<longleftrightarrow>
     finite (satellites w) \<and> (\<forall>r. constructed (store w r)) \<and>
     (\<forall>a\<in>satellites w. \<forall>b\<in>neighbours (store w a).
         b \<in> satellites w \<and> lineofsight (store w a) (store w b)) \<and>
     (\<forall>a\<in>satellites w. \<forall>b\<in>satellites w.
         b \<in> neighbours (store w a) \<longleftrightarrow> a \<in> neighbours (store w b))"

section \<open>Example objects\<close>

text \<open>
  Concrete coordinates, satellite objects and networks, used where a theorem is applied
  to an input. Points on the ground: on the equator at longitude 0 and at longitude
  180, at the north pole, and one kilometre below the surface.
\<close>

definition ground_point :: Coordinates where
  "ground_point = \<lparr>latitude = 0, longitude = 0, altitude = 0\<rparr>"

definition far_point :: Coordinates where
  "far_point = \<lparr>latitude = 0, longitude = 180, altitude = 0\<rparr>"

definition north_pole :: Coordinates where
  "north_pole = \<lparr>latitude = 90, longitude = 0, altitude = 0\<rparr>"


text \<open>
  The satellite of scenario 1 of the specification, 1000 km above \<open>ground_point\<close>,
  as \<open>Satellite_init\<close> builds it.
\<close>

definition S1_coordinates :: Coordinates where
  "S1_coordinates = \<lparr>latitude = 0, longitude = 0, altitude = 1000\<rparr>"

definition S1 :: satellite where
  "S1 = \<lparr>sat_id = ''S1'', coordinates = S1_coordinates,
          spherical = \<lparr>theta = pi / 2, phi = 0, radius = 7371\<rparr>,
          horizon = \<lparr>sin_h = sqrt (1 - 6371 / 7371 * (6371 / 7371)), cos_h = 6371 / 7371\<rparr>,
          neighbours = {}\<rparr>"

text \<open>
  A pool of objects that are all copies of \<open>S1\<close> (equal coordinates, distinct
  identities); the network after \<open>connect\<close> of the objects 0 and 1; and the network
  after \<open>connect\<close> of the object 0 twice.
\<close>

definition all_S1 :: "ref \<Rightarrow> satellite" where
  "all_S1 r = S1"

definition two_S1 :: world where
  "two_S1 = \<lparr>store = (\<lambda>r. S1\<lparr>neighbours := (if r = 0 then {1} else if r = 1 then {0} else {})\<rparr>),
             satellites = {0, 1}\<rparr>"

definition self_S1 :: world where
  "self_S1 = \<lparr>store = (\<lambda>r. S1\<lparr>neighbours := (if r = 0 then {0} else {})\<rparr>),
              satellites = {0}\<rparr>"

text \<open>
  Scenario 3 of the specification: three satellites over the equator at longitudes 0,
  90 and 180, at an altitude of one earth radius, so that each sees the next but the
  first does not see the third. \<open>chain\<close> is the network after \<open>connect\<close> of the
  three in turn, \<open>gap\<close> the network after \<open>connect\<close> of the first and the third
  only (scenario 2).
\<close>

definition relay :: "string \<Rightarrow> real \<Rightarrow> satellite" where
  "relay ident lon =
     \<lparr>sat_id = ident, coordinates = \<lparr>latitude = 0, longitude = lon, altitude = 6371\<rparr>,
      spherical = \<lparr>theta = pi / 2, phi = lon * (2 * pi / 360), radius = 12742\<rparr>,
      horizon = \<lparr>sin_h = sqrt (1 - 1 / 2 * (1 / 2)), cos_h = 1 / 2\<rparr>,
      neighbours = {}\<rparr>"

definition chain_objs :: "ref \<Rightarrow> satellite" where
  "chain_objs r = (if r = 0 then relay ''S1'' 0 else if r = 1 then relay ''S2'' 90 else relay ''S3'' 180)"

definition chain :: world where
  "chain = \<lparr>store = (\<lambda>r. (chain_objs r)\<lparr>neighbours :=
               (if r = 0 then {1} else if r = 1 then {0, 2} else if r = 2 then {1} else {})\<rparr>),
            satellites = {0, 1, 2}\<rparr>"


text \<open>
  The neighbour sets of \<open>chain\<close> on objects whose other fields are plain numbers: the
  loop of \<open>route\<close> reads nothing but neighbour sets, and on this copy it can be
  evaluated.
\<close>

definition bare :: "ref set \<Rightarrow> satellite" where
  "bare n = \<lparr>sat_id = [], coordinates = \<lparr>latitude = 0, longitude = 0, altitude = 0\<rparr>,
      spherical = \<lparr>theta = 0, phi = 0, radius = 0\<rparr>, horizon = \<lparr>sin_h = 0, cos_h = 0\<rparr>,
      neighbours = n\<rparr>"

definition chain_graph :: world where
  "chain_graph = \<lparr>store = (\<lambda>r. bare (if r = 0 then {1} else if r = 1 then {0, 2}
                                     else if r = 2 then {1} else {})),
                  satellites = {0, 1, 2}\<rparr>"

section \<open>Geometry\<close>

text \<open>
  Facts of real arithmetic behind the constructor and the line-of-sight test. The
  cosine of the angle between two points of the sphere is at most 1; the test reads
  only the cached spherical position and horizon of its two arguments.
\<close>

lemma sq_neg_iff: "1 - x * x < 0 \<longleftrightarrow> \<bar>x\<bar> > 1" for x :: real
  by (metis abs_square_less_1 diff_gt_0_iff_gt diff_less_0_iff_less linorder_neqE_linordered_idom not_less_iff_gr_or_eq power2_eq_square abs_square_eq_1 abs_1 )

lemma ratio_iff: "(r = 0 \<or> \<bar>6371 / r\<bar> > 1) \<longleftrightarrow> (-6371 < r \<and> r < (6371::real))"
proof (cases "r = 0")
  case True
  then show ?thesis by simp
next
  case False
  show ?thesis
  proof (cases "0 < r")
    case True
    then show ?thesis by (simp add: abs_if less_divide_eq divide_less_eq)
  next
    case False
    with \<open>r \<noteq> 0\<close> have "r < 0" by simp
    then show ?thesis by (auto simp add: abs_if less_divide_eq divide_less_eq)
  qed
qed

lemma cospsi_le_1: "cos a * cos b + sin a * sin b * cos c \<le> (1::real)"
proof (cases "0 \<le> sin a * sin b")
  case True
  have "sin a * sin b * cos c \<le> sin a * sin b * 1"
    by (rule mult_left_mono[OF cos_le_one True])
  moreover have "cos a * cos b + sin a * sin b = cos (a - b)" by (simp add: cos_diff)
  ultimately show ?thesis using cos_le_one[of "a - b"] by linarith
next
  case False
  then have neg: "sin a * sin b \<le> 0" by simp
  have "sin a * sin b * cos c \<le> sin a * sin b * (-1)"
    by (rule mult_left_mono_neg[OF cos_ge_minus_one neg])
  moreover have "cos a * cos b - sin a * sin b = cos (a + b)" by (simp add: cos_add)
  ultimately show ?thesis using cos_le_one[of "a + b"] by linarith
qed


lemma constructed_altitude_zero:
  assumes "constructed s" "altitude (coordinates s) = 0"
  shows "horizon s = \<lparr>sin_h = 0, cos_h = 1\<rparr>"
proof -
  have "Satellite_init (sat_id s) (coordinates s) = Inr (s\<lparr>neighbours := {}\<rparr>)"
    using assms(1) by (simp add: constructed_def)
  then have "map_sum id horizon (Satellite_init (sat_id s) (coordinates s)) = Inr (horizon s)"
    by simp
  then show ?thesis
    using assms(2) by (simp add: Satellite_init_def Let_def split: if_splits)
qed

lemma probe_altitude_zero:
  assumes "altitude c = 0"
  shows "\<exists>t. Satellite_init ''T'' c = Inr t \<and> horizon t = \<lparr>sin_h = 0, cos_h = 1\<rparr>"
  using assms by (simp add: Satellite_init_def Let_def)

lemma lineofsight_cong:
  "spherical a = spherical a' \<Longrightarrow> horizon a = horizon a' \<Longrightarrow>
   spherical b = spherical b' \<Longrightarrow> horizon b = horizon b' \<Longrightarrow>
   lineofsight a b = lineofsight a' b'"
  by (simp add: lineofsight_def)

lemma lineofsight_commute: "lineofsight a b = lineofsight b a"
proof -
  have "cos (phi (spherical a) - phi (spherical b)) = cos (phi (spherical b) - phi (spherical a))"
    by (metis cos_minus minus_diff_eq)
  then show ?thesis
    by (simp add: lineofsight_def Let_def mult.commute)
qed

lemma lineofsight_neighbours_update [simp]:
  "lineofsight (a\<lparr>neighbours := n\<rparr>) b = lineofsight a b"
  "lineofsight a (b\<lparr>neighbours := n\<rparr>) = lineofsight a b"
  by (simp_all add: lineofsight_def)

lemma constructed_probe:
  assumes "constructed s"
  shows "\<exists>t. Satellite_init ''T'' (coordinates s) = Inr t \<and> spherical t = spherical s \<and>
             horizon t = horizon s"
proof -
  have e: "Satellite_init (sat_id s) (coordinates s) = Inr (s\<lparr>neighbours := {}\<rparr>)"
    using assms by (simp add: constructed_def)
  have a: "map_sum id spherical (Satellite_init ''T'' (coordinates s)) =
        map_sum id spherical (Satellite_init (sat_id s) (coordinates s))"
    and b: "map_sum id horizon (Satellite_init ''T'' (coordinates s)) =
        map_sum id horizon (Satellite_init (sat_id s) (coordinates s))"
    by (simp_all add: Satellite_init_def Let_def)
  show ?thesis
  proof (cases "Satellite_init ''T'' (coordinates s)")
    case (Inl x)
    then show ?thesis using a e by simp
  next
    case (Inr t)
    then show ?thesis using a b e by simp
  qed
qed

lemma constructed_neighbours_update [simp]:
  "constructed (s\<lparr>neighbours := n\<rparr>) = constructed s"
proof -
  have "(Satellite_init i c = Inr (s\<lparr>neighbours := {}\<rparr>)) \<longleftrightarrow>
        (Satellite_init i c = Inr (s\<lparr>neighbours := n, neighbours := {}\<rparr>))" for i c
    by simp
  then show ?thesis by (simp add: constructed_def)
qed

text \<open>
  Over the reals, a member built with altitude 0 is not among the satellites visible
  from a coordinate of altitude 0: both horizons are (sin 0, cos 1), so the left side
  of the test is 1, and the cosine of the angle is never more than 1. The program
  computes the cosine of the angle in floating point, where the sum of the two products
  can round to a value above 1; of that this lemma says nothing.
\<close>

lemma altitude_zero_not_visible_real:
  assumes "altitude c = 0"
    and "\<forall>r\<in>satellites w. constructed (store w r)"
  shows "\<exists>visible. visible_satellites_at w c = (Inr visible, w) \<and>
           (\<forall>r\<in>visible. altitude (coordinates (store w r)) \<noteq> 0)"
proof -
  obtain t where t: "Satellite_init ''T'' c = Inr t" "horizon t = \<lparr>sin_h = 0, cos_h = 1\<rparr>"
    using probe_altitude_zero[OF assms(1)] by blast
  have "\<not> lineofsight (store w r) t"
    if "r \<in> satellites w" "altitude (coordinates (store w r)) = 0" for r
  proof -
    have "horizon (store w r) = \<lparr>sin_h = 0, cos_h = 1\<rparr>"
      using constructed_altitude_zero assms(2) that by blast
    then show ?thesis
      using t(2) cospsi_le_1 by (simp add: lineofsight_def Let_def not_less)
  qed
  then show ?thesis
    using t(1) by (auto simp: visible_satellites_at_def)
qed

section \<open>The priority queue keeps its heap property\<close>

text \<open>
  \<open>heappush\<close> and \<open>heappop\<close> keep the entries (as a multiset) and the heap
  property on the lengths, although they compare whole tuples: a tuple that is smaller
  has a length that is not larger. The list that \<open>route\<close> starts from is never
  heapified, but all its lengths are 0. So \<open>heappop\<close> returns an entry of least
  length.
\<close>

lemma entry_lt_fst: "entry_lt a b \<Longrightarrow> fst a \<le> fst b"
  by (cases a; cases b) (auto split: if_splits)

lemma not_entry_lt_fst: "\<not> entry_lt a b \<Longrightarrow> fst b \<le> fst a"
  by (cases a; cases b) (auto split: if_splits)

lemma length_siftdown_loop [simp]: "length (siftdown_loop x h sp pos) = length h"
  by (induction x h sp pos rule: siftdown_loop.induct)
     (subst siftdown_loop.simps, simp add: Let_def)

lemma mset_swap_hole:
  assumes "i < length h" "j < length h" "i \<noteq> j"
  shows "mset (h[j := h ! i, i := x]) = mset (h[j := x])"
proof -
  have "mset ((h[j := x])[j := (h[j := x]) ! i, i := (h[j := x]) ! j]) = mset (h[j := x])"
    by (rule mset_swap) (use assms in simp_all)
  then show ?thesis using assms by simp
qed

lemma mset_siftdown_loop:
  "pos < length h \<Longrightarrow> mset (siftdown_loop x h sp pos) = mset (h[pos := x])"
proof (induction x h sp pos rule: siftdown_loop.induct)
  case (1 newitem heap startpos pos)
  show ?case
  proof (cases "startpos < pos \<and> entry_lt newitem (heap ! ((pos - 1) div 2))")
    case True
    then have pp: "(pos - 1) div 2 < pos" by auto
    have "mset (siftdown_loop newitem (heap[pos := heap ! ((pos - 1) div 2)]) startpos ((pos - 1) div 2))
          = mset (heap[pos := heap ! ((pos - 1) div 2), (pos - 1) div 2 := newitem])"
      using "1.IH"[OF _ refl refl] True pp "1.prems" by simp
    also have "\<dots> = mset (heap[pos := newitem])"
      using mset_swap_hole[of "(pos - 1) div 2" heap pos newitem] pp "1.prems" by simp
    finally show ?thesis
      using True by (subst siftdown_loop.simps) (simp add: Let_def)
  next
    case False
    then show ?thesis
      by (subst siftdown_loop.simps) (auto simp add: Let_def)
  qed
qed

lemma parent_less: "0 < i \<Longrightarrow> (i - 1) div 2 < (i::nat)"
  by auto

lemma heap_ok_siftdown_loop:
  assumes "hole_ok h pos" "pos < length h"
    and "\<forall>i. 0 < i \<and> i < length h \<and> (i - 1) div 2 = pos \<longrightarrow> fst x \<le> fst (h ! i)"
  shows "heap_ok (siftdown_loop x h 0 pos)"
  using assms
proof (induction x h "0::nat" pos rule: siftdown_loop.induct)
  case (1 newitem heap pos)
  define pp where "pp = (pos - 1) div 2"
  have hole1: "fst (heap ! ((i - 1) div 2)) \<le> fst (heap ! i)"
    if "0 < i" "i < length heap" "i \<noteq> pos" "(i - 1) div 2 \<noteq> pos" for i
    using "1.prems"(1) that unfolding hole_ok_def by blast
  have hole2: "fst (heap ! pp) \<le> fst (heap ! i)"
    if "0 < pos" "0 < i" "i < length heap" "(i - 1) div 2 = pos" for i
    using "1.prems"(1) that unfolding hole_ok_def pp_def by blast
  have kids: "fst newitem \<le> fst (heap ! i)"
    if "0 < i" "i < length heap" "(i - 1) div 2 = pos" for i
    using "1.prems"(3) that by blast
  show ?case
  proof (cases "0 < pos \<and> entry_lt newitem (heap ! pp)")
    case True
    then have pos: "0 < pos" and lt: "fst newitem \<le> fst (heap ! pp)"
      by (auto dest: entry_lt_fst)
    have pp: "pp < pos" using pos by (simp add: pp_def)
    let ?h = "heap[pos := heap ! pp]"
    have h_nth: "?h ! i = (if i = pos then heap ! pp else heap ! i)" if "i < length heap" for i
      using that by (simp add: nth_list_update)
    have a: "hole_ok ?h pp"
      unfolding hole_ok_def
    proof (intro conjI allI impI)
      fix i assume i: "0 < i \<and> i < length ?h \<and> i \<noteq> pp \<and> (i - 1) div 2 \<noteq> pp"
      then have ipos: "i \<noteq> pos" by (auto simp: pp_def)
      have pi: "(i - 1) div 2 < length heap" using i parent_less[of i] by simp
      show "fst (?h ! ((i - 1) div 2)) \<le> fst (?h ! i)"
      proof (cases "(i - 1) div 2 = pos")
        case True
        then show ?thesis using hole2[of i] i ipos pos h_nth "1.prems"(2) by simp
      next
        case False
        then show ?thesis using hole1[of i] i ipos h_nth pi by simp
      qed
    next
      fix i assume ppos: "0 < pp" and i: "0 < i \<and> i < length ?h \<and> (i - 1) div 2 = pp"
      have gp: "(pp - 1) div 2 < pp" using ppos by simp
      have gp_le: "fst (heap ! ((pp - 1) div 2)) \<le> fst (heap ! pp)"
        using hole1[of pp] ppos pp gp "1.prems"(2) by simp
      have "fst (heap ! pp) \<le> fst (heap ! i)" if "i \<noteq> pos"
        using hole1[of i] i that pp by simp
      then show "fst (?h ! ((pp - 1) div 2)) \<le> fst (?h ! i)"
        using gp_le gp pp i h_nth "1.prems"(2) by (cases "i = pos") auto
    qed
    have b: "pp < length ?h" using pp "1.prems"(2) by simp
    have c: "\<forall>i. 0 < i \<and> i < length ?h \<and> (i - 1) div 2 = pp \<longrightarrow> fst newitem \<le> fst (?h ! i)"
    proof (intro allI impI)
      fix i assume i: "0 < i \<and> i < length ?h \<and> (i - 1) div 2 = pp"
      have "fst (heap ! pp) \<le> fst (heap ! i)" if "i \<noteq> pos"
        using hole1[of i] i that pp by simp
      then show "fst newitem \<le> fst (?h ! i)"
        using lt i h_nth by (cases "i = pos") auto
    qed
    have "heap_ok (siftdown_loop newitem ?h 0 pp)"
      using "1.hyps"[OF pos pp_def refl _ a b c] True by simp
    then show ?thesis
      using True by (subst siftdown_loop.simps) (simp add: Let_def pp_def)
  next
    case False
    have "heap_ok (heap[pos := newitem])"
      unfolding heap_ok_def
    proof (intro allI impI)
      fix i assume i: "0 < i \<and> i < length (heap[pos := newitem])"
      have pi: "(i - 1) div 2 < i" using i by auto
      consider "i = pos" | "i \<noteq> pos" "(i - 1) div 2 = pos" | "i \<noteq> pos" "(i - 1) div 2 \<noteq> pos"
        by blast
      then show "fst (heap[pos := newitem] ! ((i - 1) div 2)) \<le> fst (heap[pos := newitem] ! i)"
      proof cases
        case 1
        then have "\<not> entry_lt newitem (heap ! pp)" using False i by simp
        then have "fst (heap ! pp) \<le> fst newitem" by (rule not_entry_lt_fst)
        then show ?thesis using 1 i pi by (simp add: pp_def)
      next
        case 2
        then show ?thesis using kids[of i] i "1.prems"(2) by simp
      next
        case 3
        then show ?thesis using hole1[of i] i pi by simp
      qed
    qed
    then show ?thesis
      using False by (subst siftdown_loop.simps) (auto simp add: Let_def pp_def)
  qed
qed

lemma siftup_loop_unfold:
  "siftup_loop heap pos =
     (if 2 * pos + 1 < length heap then
        siftup_loop
          (heap[pos := heap ! (if 2 * pos + 2 < length heap \<and> \<not> entry_lt (heap ! (2 * pos + 1)) (heap ! (2 * pos + 2))
                               then 2 * pos + 2 else 2 * pos + 1)])
          (if 2 * pos + 2 < length heap \<and> \<not> entry_lt (heap ! (2 * pos + 1)) (heap ! (2 * pos + 2))
           then 2 * pos + 2 else 2 * pos + 1)
      else (heap, pos))"
  by (subst siftup_loop.simps) (simp add: Let_def)

lemma siftup_loop_induct [consumes 1, case_names leaf child]:
  assumes "pos < length heap"
    and leaf: "\<And>heap pos. pos < length heap \<Longrightarrow> length heap \<le> 2 * pos + 1 \<Longrightarrow> P heap pos"
    and child: "\<And>heap pos c. pos < length heap \<Longrightarrow> 2 * pos + 1 < length heap \<Longrightarrow>
        c = (if 2 * pos + 2 < length heap \<and> \<not> entry_lt (heap ! (2 * pos + 1)) (heap ! (2 * pos + 2))
             then 2 * pos + 2 else 2 * pos + 1) \<Longrightarrow>
        P (heap[pos := heap ! c]) c \<Longrightarrow> P heap pos"
  shows "P heap pos"
  using assms(1)
proof (induction "length heap - pos" arbitrary: heap pos rule: less_induct)
  case less
  show ?case
  proof (cases "2 * pos + 1 < length heap")
    case False
    then show ?thesis using leaf less.prems by simp
  next
    case True
    define c where "c = (if 2 * pos + 2 < length heap \<and> \<not> entry_lt (heap ! (2 * pos + 1)) (heap ! (2 * pos + 2))
             then 2 * pos + 2 else 2 * pos + 1)"
    have c: "pos < c" "c < length heap" using True by (auto simp: c_def)
    have "P (heap[pos := heap ! c]) c"
      by (rule less.hyps) (use c in auto)
    then show ?thesis using child[OF less.prems True c_def] by simp
  qed
qed

lemma siftup_loop_bounds:
  assumes "pos < length h" "siftup_loop h pos = (h', pos')"
  shows "length h' = length h \<and> pos' < length h \<and> length h \<le> 2 * pos' + 1"
  using assms
proof (induction h pos rule: siftup_loop_induct)
  case (leaf heap pos)
  then show ?case by (subst (asm) siftup_loop_unfold) auto
next
  case (child heap pos c)
  from child.prems child.hyps(2) have "siftup_loop (heap[pos := heap ! c]) c = (h', pos')"
    by (subst (asm) siftup_loop_unfold) (simp add: child.hyps(3))
  then show ?case using child.IH by simp
qed

lemma siftup_loop_mset:
  assumes "pos < length h" "siftup_loop h pos = (h', pos')"
  shows "mset (h'[pos' := x]) = mset (h[pos := x])"
  using assms
proof (induction h pos rule: siftup_loop_induct)
  case (leaf heap pos)
  then show ?case by (subst (asm) siftup_loop_unfold) auto
next
  case (child heap pos c)
  have c: "pos < c" "c < length heap" using child.hyps by (auto split: if_splits)
  from child.prems child.hyps(2) have "siftup_loop (heap[pos := heap ! c]) c = (h', pos')"
    by (subst (asm) siftup_loop_unfold) (simp add: child.hyps(3))
  then have "mset (h'[pos' := x]) = mset (heap[pos := heap ! c, c := x])"
    using child.IH by simp
  also have "\<dots> = mset (heap[pos := x])"
    using mset_swap_hole[of c heap pos x] c child.hyps(1) by simp
  finally show ?case .
qed

lemma child_cases: "0 < i \<Longrightarrow> (i - 1) div 2 = pos \<longleftrightarrow> i = 2 * pos + 1 \<or> i = 2 * pos + (2::nat)"
  by auto

lemma siftup_loop_hole_ok:
  assumes "pos < length h" "siftup_loop h pos = (h', pos')" "hole_ok h pos"
  shows "hole_ok h' pos'"
  using assms
proof (induction h pos rule: siftup_loop_induct)
  case (leaf heap pos)
  then show ?case by (subst (asm) siftup_loop_unfold) auto
next
  case (child heap pos c)
  have c: "pos < c" "c < length heap" "(c - 1) div 2 = pos" "0 < c"
    using child.hyps by (auto split: if_splits)
  have hole1: "fst (heap ! ((i - 1) div 2)) \<le> fst (heap ! i)"
    if "0 < i" "i < length heap" "i \<noteq> pos" "(i - 1) div 2 \<noteq> pos" for i
    using child.prems(2) that unfolding hole_ok_def by blast
  have hole2: "fst (heap ! ((pos - 1) div 2)) \<le> fst (heap ! i)"
    if "0 < pos" "0 < i" "i < length heap" "(i - 1) div 2 = pos" for i
    using child.prems(2) that unfolding hole_ok_def by blast
  have smaller: "fst (heap ! c) \<le> fst (heap ! i)"
    if "0 < i" "i < length heap" "(i - 1) div 2 = pos" "i \<noteq> c" for i
  proof -
    have i: "i = 2 * pos + 1 \<or> i = 2 * pos + 2" using that child_cases by blast
    show ?thesis
    proof (cases "2 * pos + 2 < length heap \<and> \<not> entry_lt (heap ! (2 * pos + 1)) (heap ! (2 * pos + 2))")
      case True
      then have "c = 2 * pos + 2" using child.hyps(3) by simp
      then show ?thesis using True i that not_entry_lt_fst by auto
    next
      case False
      then have cc: "c = 2 * pos + 1" using child.hyps(3) by simp
      then have "i = 2 * pos + 2" using i that by simp
      then show ?thesis using False cc that entry_lt_fst by auto
    qed
  qed
  let ?h = "heap[pos := heap ! c]"
  have h_nth: "?h ! i = (if i = pos then heap ! c else heap ! i)" if "i < length heap" for i
    using that by (simp add: nth_list_update)
  have "hole_ok ?h c"
    unfolding hole_ok_def
  proof (intro conjI allI impI)
    fix i assume i: "0 < i \<and> i < length ?h \<and> i \<noteq> c \<and> (i - 1) div 2 \<noteq> c"
    have pi: "(i - 1) div 2 < i" using i by auto
    consider "i = pos" | "i \<noteq> pos" "(i - 1) div 2 = pos" | "i \<noteq> pos" "(i - 1) div 2 \<noteq> pos"
      by blast
    then show "fst (?h ! ((i - 1) div 2)) \<le> fst (?h ! i)"
    proof cases
      case 1
      then show ?thesis using hole2[of c] c i pi h_nth by simp
    next
      case 2
      then show ?thesis using smaller[of i] i h_nth child.hyps(1) by simp
    next
      case 3
      then show ?thesis using hole1[of i] i pi h_nth by simp
    qed
  next
    fix i assume "0 < c" and i: "0 < i \<and> i < length ?h \<and> (i - 1) div 2 = c"
    have "c < i" using i parent_less[of i] by simp
    then have "fst (heap ! c) \<le> fst (heap ! i)"
      using hole1[of i] i c by simp
    then show "fst (?h ! ((c - 1) div 2)) \<le> fst (?h ! i)"
      using c i \<open>c < i\<close> h_nth child.hyps(1) by simp
  qed
  moreover from child.prems child.hyps(2) have "siftup_loop ?h c = (h', pos')"
    by (subst (asm) siftup_loop_unfold) (simp add: child.hyps(3))
  ultimately show ?case using child.IH by simp
qed

lemma hole_ok_update: "hole_ok (h[pos := x]) pos = hole_ok h pos"
proof -
  have "(i - 1) div 2 \<noteq> i" if "0 < i" for i :: nat
    using that by auto
  then show ?thesis
    unfolding hole_ok_def by (auto simp: nth_list_update)
qed

lemma heap_ok_hole_ok: "heap_ok h \<Longrightarrow> hole_ok h pos"
  unfolding heap_ok_def hole_ok_def
proof (intro conjI allI impI)
  fix i assume h: "\<forall>i. 0 < i \<and> i < length h \<longrightarrow> fst (h ! ((i - 1) div 2)) \<le> fst (h ! i)"
    and "0 < pos" and i: "0 < i \<and> i < length h \<and> (i - 1) div 2 = pos"
  have "pos < i" using i parent_less[of i] by simp
  then have "fst (h ! ((pos - 1) div 2)) \<le> fst (h ! pos)"
    using h \<open>0 < pos\<close> i by simp
  moreover have "fst (h ! pos) \<le> fst (h ! i)" using h i by blast
  ultimately show "fst (h ! ((pos - 1) div 2)) \<le> fst (h ! i)" by simp
qed simp

lemma mset_heappush: "mset (heappush h x) = add_mset x (mset h)"
  by (simp add: heappush_def siftdown_def mset_siftdown_loop)

lemma heap_ok_heappush:
  assumes "heap_ok h"
  shows "heap_ok (heappush h x)"
proof -
  have a: "hole_ok (h @ [x]) (length h)"
    unfolding hole_ok_def
  proof (intro conjI allI impI)
    fix i assume i: "0 < i \<and> i < length (h @ [x]) \<and> i \<noteq> length h \<and> (i - 1) div 2 \<noteq> length h"
    then have "i < length h" "(i - 1) div 2 < length h" by auto
    then show "fst ((h @ [x]) ! ((i - 1) div 2)) \<le> fst ((h @ [x]) ! i)"
      using assms i by (simp add: nth_append heap_ok_def)
  next
    fix i assume "0 < i \<and> i < length (h @ [x]) \<and> (i - 1) div 2 = length h"
    then have False by auto
    then show "fst ((h @ [x]) ! ((length h - 1) div 2)) \<le> fst ((h @ [x]) ! i)" ..
  qed
  have c: "\<forall>i. 0 < i \<and> i < length (h @ [x]) \<and> (i - 1) div 2 = length h \<longrightarrow> fst x \<le> fst ((h @ [x]) ! i)"
    by auto
  show ?thesis
    using heap_ok_siftdown_loop[OF a _ c] by (simp add: heappush_def siftdown_def)
qed

lemma heap_ok_root:
  assumes "heap_ok h" "i < length h"
  shows "fst (h ! 0) \<le> fst (h ! i)"
  using assms(2)
proof (induction i rule: less_induct)
  case (less i)
  show ?case
  proof (cases "i = 0")
    case True
    then show ?thesis by simp
  next
    case False
    then have p: "(i - 1) div 2 < i" by auto
    have "fst (h ! 0) \<le> fst (h ! ((i - 1) div 2))"
      using less.IH[OF p] p less.prems by simp
    moreover have "fst (h ! ((i - 1) div 2)) \<le> fst (h ! i)"
      using assms(1) False less.prems by (simp add: heap_ok_def)
    ultimately show ?thesis by simp
  qed
qed

lemma heap_ok_butlast: "heap_ok h \<Longrightarrow> heap_ok (butlast h)"
proof -
  have "(i - 1) div 2 < length h - 1" if "i < length h - 1" for i
    using that by auto
  then show "heap_ok h \<Longrightarrow> heap_ok (butlast h)"
    by (auto simp: heap_ok_def nth_butlast)
qed

lemma mset_siftup:
  assumes "pos < length h"
  shows "mset (siftup h pos) = mset h"
proof -
  obtain h' pos' where l: "siftup_loop h pos = (h', pos')" by (cases "siftup_loop h pos")
  have b: "length h' = length h" "pos' < length h"
    using siftup_loop_bounds[OF assms l] by auto
  have "mset (siftup h pos) = mset (h'[pos' := h ! pos])"
    using l b by (simp add: siftup_def siftdown_def mset_siftdown_loop Let_def)
  also have "\<dots> = mset (h[pos := h ! pos])"
    by (rule siftup_loop_mset[OF assms l])
  finally show ?thesis by simp
qed

lemma heap_ok_siftup:
  assumes "hole_ok h 0" "0 < length h"
  shows "heap_ok (siftup h 0)"
proof -
  obtain h' pos' where l: "siftup_loop h 0 = (h', pos')" by (cases "siftup_loop h 0")
  have b: "length h' = length h" "pos' < length h" "length h \<le> 2 * pos' + 1"
    using siftup_loop_bounds[OF assms(2) l] by auto
  have "hole_ok h' pos'"
    by (rule siftup_loop_hole_ok[OF assms(2) l assms(1)])
  then have a: "hole_ok (h'[pos' := h ! 0]) pos'" by (simp add: hole_ok_update)
  have c: "\<forall>i. 0 < i \<and> i < length (h'[pos' := h ! 0]) \<and> (i - 1) div 2 = pos' \<longrightarrow>
             fst (h ! 0) \<le> fst ((h'[pos' := h ! 0]) ! i)"
    using b by auto
  have "heap_ok (siftdown_loop (h ! 0) (h'[pos' := h ! 0]) 0 pos')"
    by (rule heap_ok_siftdown_loop[OF a _ c]) (use b in simp)
  then show ?thesis
    using l b by (simp add: siftup_def siftdown_def Let_def)
qed

lemma heappop_None: "heappop h = None \<longleftrightarrow> h = []"
  unfolding heappop_def Let_def by (cases "h = []"; cases "butlast h = []") simp_all

lemma butlast_nonempty: "butlast h \<noteq> [] \<Longrightarrow> 0 < length (butlast h) \<and> Suc 0 < length h"
  by (cases h) auto

lemma heappop_Some:
  assumes "heappop h = Some (x, h')"
  shows "mset h = add_mset x (mset h')"
proof -
  have ne: "h \<noteq> []" using assms by (auto simp: heappop_def)
  then have h: "h = butlast h @ [last h]" by simp
  show ?thesis
  proof (cases "butlast h = []")
    case True
    then show ?thesis using assms ne h by (auto simp: heappop_def Let_def)
  next
    case False
    then have x: "x = butlast h ! 0" and h': "h' = siftup ((butlast h)[0 := last h]) 0"
      using assms ne by (auto simp: heappop_def Let_def)
    have len: "0 < length (butlast h)" using butlast_nonempty[OF False] by simp
    have "mset h' = mset ((butlast h)[0 := last h])"
      unfolding h' by (rule mset_siftup) (use len in simp)
    also have "\<dots> = add_mset (last h) (mset (butlast h) - {#x#})"
      using len by (simp add: mset_update x)
    finally have "add_mset x (mset h') = add_mset (last h) (mset (butlast h))"
      using len by (simp add: x)
    also have "\<dots> = mset h" by (subst (3) h) simp
    finally show ?thesis by simp
  qed
qed

lemma heappop_heap_ok:
  assumes "heap_ok h" "heappop h = Some (x, h')"
  shows "heap_ok h' \<and> (\<forall>e\<in>set h. fst x \<le> fst e)"
proof -
  have ne: "h \<noteq> []" using assms by (auto simp: heappop_def)
  have x: "x = h ! 0"
  proof (cases "butlast h = []")
    case True
    then have "length h = 1" using ne by (cases h) (auto split: if_splits)
    then show ?thesis using assms(2) ne True by (auto simp: heappop_def Let_def last_conv_nth)
  next
    case False
    then show ?thesis
      using assms(2) ne butlast_nonempty[OF False] by (auto simp: heappop_def Let_def nth_butlast)
  qed
  have min: "\<forall>e\<in>set h. fst x \<le> fst e"
    using heap_ok_root[OF assms(1)] unfolding x by (metis in_set_conv_nth)
  have "heap_ok h'"
  proof (cases "butlast h = []")
    case True
    then show ?thesis using assms ne by (auto simp: heappop_def Let_def heap_ok_def)
  next
    case False
    then have h': "h' = siftup ((butlast h)[0 := last h]) 0"
      using assms ne by (auto simp: heappop_def Let_def)
    have "hole_ok (butlast h) 0"
      using heap_ok_hole_ok[OF heap_ok_butlast[OF assms(1)]] .
    then have "hole_ok ((butlast h)[0 := last h]) 0" by (simp add: hole_ok_update)
    then show ?thesis unfolding h' by (rule heap_ok_siftup) (use butlast_nonempty[OF False] in simp)
  qed
  then show ?thesis using min by simp
qed

lemma mset_foldl_heappush:
  "mset (foldl (\<lambda>q n. heappush q (f n)) Q ns) = mset Q + mset (map f ns)"
  by (induction ns arbitrary: Q) (simp_all add: mset_heappush)

lemma heap_ok_foldl_heappush:
  "heap_ok Q \<Longrightarrow> heap_ok (foldl (\<lambda>q n. heappush q (f n)) Q ns)"
  by (induction ns arbitrary: Q) (simp_all add: heap_ok_heappush)

lemma heappop_set:
  assumes "heappop Q = Some (e, Q')"
  shows "set Q = insert e (set Q')" "length Q = Suc (length Q')"
proof -
  have m: "mset Q = add_mset e (mset Q')" using heappop_Some[OF assms] .
  show "set Q = insert e (set Q')"
    using arg_cong[OF m, of set_mset] by simp
  show "length Q = Suc (length Q')"
    using arg_cong[OF m, of size] by simp
qed

section \<open>The loop of route\<close>

text \<open>
  Each turn of the loop keeps the invariant; the loop ends because a turn either adds a
  member to \<open>seen\<close> or shortens the queue; and when it ends, the invariant gives the
  result.
\<close>

lemma linked_single [simp]: "linked w [s]"
  by (simp add: linked_def)

lemma linked_snoc:
  "p \<noteq> [] \<Longrightarrow> linked w (p @ [b]) \<longleftrightarrow> linked w p \<and> b \<in> neighbours (store w (last p))"
proof
  assume p: "p \<noteq> []" and l: "linked w (p @ [b])"
  have "linked w p"
    unfolding linked_def
  proof (intro allI impI)
    fix i assume i: "Suc i < length p"
    then have "(p @ [b]) ! Suc i \<in> neighbours (store w ((p @ [b]) ! i))"
      using l by (simp add: linked_def)
    then show "p ! Suc i \<in> neighbours (store w (p ! i))"
      using i by (simp add: nth_append)
  qed
  moreover have "(p @ [b]) ! Suc (length p - 1) \<in> neighbours (store w ((p @ [b]) ! (length p - 1)))"
    using l p unfolding linked_def by (metis Suc_pred' length_append_singleton length_greater_0_conv lessI)
  then have "b \<in> neighbours (store w (last p))"
    using p by (simp add: nth_append last_conv_nth)
  ultimately show "linked w p \<and> b \<in> neighbours (store w (last p))" by simp
next
  assume p: "p \<noteq> []" and h: "linked w p \<and> b \<in> neighbours (store w (last p))"
  show "linked w (p @ [b])"
    unfolding linked_def
  proof (intro allI impI)
    fix i assume i: "Suc i < length (p @ [b])"
    show "(p @ [b]) ! Suc i \<in> neighbours (store w ((p @ [b]) ! i))"
    proof (cases "Suc i < length p")
      case True
      then show ?thesis using h by (simp add: nth_append linked_def)
    next
      case False
      then have "Suc i = length p" using i by simp
      then have "i = length p - 1" "\<not> Suc i < length p" "i < length p" by simp_all
      then show ?thesis using h p by (simp add: nth_append last_conv_nth)
    qed
  qed
qed

lemma spath_snoc:
  "p \<noteq> [] \<Longrightarrow> spath w S (p @ [b]) \<longleftrightarrow> spath w S p \<and> b \<in> neighbours (store w (last p))"
  by (auto simp: spath_def linked_snoc)

lemma spath_single [simp]: "spath w S [s] \<longleftrightarrow> s \<in> S"
  by (simp add: spath_def)

lemma inv_entry_below:
  assumes "loop_inv w S F Q seen" "spath w S q" "last q \<notin> seen"
  shows "\<exists>l u p. (l, u, p) \<in> set Q \<and> l \<le> int (length q) - 1"
proof -
  have ne: "q \<noteq> []" using assms(2) by (simp add: spath_def)
  from ne assms(2,3) show ?thesis
  proof (induction q rule: rev_nonempty_induct)
    case (single s)
    then have "(0, s, []) \<in> set Q" using assms(1) by (simp add: loop_inv_def)
    then show ?case by fastforce
  next
    case (snoc b q')
    then have sp: "spath w S q'" and nb: "b \<in> neighbours (store w (last q'))"
      by (simp_all add: spath_snoc)
    show ?case
    proof (cases "last q' \<in> seen")
      case False
      then obtain l u p where "(l, u, p) \<in> set Q" "l \<le> int (length q') - 1"
        using snoc.IH[OF sp] by blast
      then show ?thesis by fastforce
    next
      case True
      have "b \<notin> seen" using snoc.prems by simp
      then have "\<exists>l p. (l, b, p) \<in> set Q \<and> l \<le> int (length q')"
        using assms(1) True nb sp unfolding loop_inv_def by blast
      then show ?thesis by fastforce
    qed
  qed
qed

lemma inv_skip:
  assumes inv: "loop_inv w S F Q seen"
    and pop: "heappop Q = Some ((l, u, p), Q')"
    and u: "u \<in> seen"
  shows "loop_inv w S F Q' seen"
proof -
  have Q: "set Q = insert (l, u, p) (set Q')" using heappop_set[OF pop] by simp
  have ok: "heap_ok Q'" using heappop_heap_ok[OF _ pop] inv by (simp add: loop_inv_def)
  have keep: "(l', s, p') \<in> set Q'" if "(l', s, p') \<in> set Q" "s \<notin> seen" for l' s p'
    using that u Q by auto
  show ?thesis
    unfolding loop_inv_def
  proof (intro conjI allI impI)
    show "heap_ok Q'" by (rule ok)
  next
    fix l' s p' assume "(l', s, p') \<in> set Q'"
    then have "(l', s, p') \<in> set Q" using Q by simp
    then show "spath w S (p' @ [s])" "l' = int (length p')"
      using inv unfolding loop_inv_def by blast+
  next
    fix s assume "s \<in> S \<and> s \<notin> seen"
    then show "(0, s, []) \<in> set Q'"
      using inv keep unfolding loop_inv_def by blast
  next
    fix a b p' assume h: "a \<in> seen \<and> b \<in> neighbours (store w a) \<and> b \<notin> seen \<and> spath w S p' \<and> last p' = a"
    then obtain l' q where "(l', b, q) \<in> set Q" "l' \<le> int (length p')"
      using inv unfolding loop_inv_def by blast
    then show "\<exists>l q. (l, b, q) \<in> set Q' \<and> l \<le> int (length p')"
      using keep h by blast
  next
    show "seen \<inter> F = {}" using inv by (simp add: loop_inv_def)
  qed
qed

lemma inv_push:
  assumes inv: "loop_inv w S F Q seen"
    and pop: "heappop Q = Some ((l, u, p), Q')"
    and u: "u \<notin> seen" "u \<notin> F"
    and ns: "set ns = neighbours (store w u)"
  shows "loop_inv w S F (foldl (\<lambda>q n. heappush q (l + 1, n, p @ [u])) Q' ns) (insert u seen)"
proof -
  let ?Q = "foldl (\<lambda>q n. heappush q (l + 1, n, p @ [u])) Q' ns"
  have Q: "set Q = insert (l, u, p) (set Q')" using heappop_set[OF pop] by simp
  have hQ: "heap_ok Q" using inv by (simp add: loop_inv_def)
  have ok: "heap_ok Q'" and least: "\<forall>e\<in>set Q. l \<le> fst e"
    using heappop_heap_ok[OF hQ pop] by auto
  have Q2: "set ?Q = set Q' \<union> (\<lambda>n. (l + 1, n, p @ [u])) ` neighbours (store w u)"
    using arg_cong[OF mset_foldl_heappush[of "\<lambda>n. (l + 1, n, p @ [u])" Q' ns], of set_mset] ns
    by simp
  have popped: "spath w S (p @ [u])" "l = int (length p)"
    using inv Q unfolding loop_inv_def by blast+
  have keep: "(l', s, p') \<in> set ?Q" if "(l', s, p') \<in> set Q" "s \<noteq> u" for l' s p'
    using that Q Q2 by auto
  show ?thesis
    unfolding loop_inv_def
  proof (intro conjI allI impI)
    show "heap_ok ?Q" by (rule heap_ok_foldl_heappush[OF ok])
  next
    fix l' s p' assume e: "(l', s, p') \<in> set ?Q"
    show "spath w S (p' @ [s])"
    proof (cases "(l', s, p') \<in> set Q'")
      case True
      then show ?thesis using inv Q unfolding loop_inv_def by blast
    next
      case False
      then have "s \<in> neighbours (store w u)" "p' = p @ [u]" using e Q2 by auto
      then show ?thesis using popped(1) spath_snoc[of "p @ [u]" w S s] by simp
    qed
    show "l' = int (length p')"
    proof (cases "(l', s, p') \<in> set Q'")
      case True
      then show ?thesis using inv Q unfolding loop_inv_def by blast
    next
      case False
      then have "l' = l + 1" "p' = p @ [u]" using e Q2 by auto
      then show ?thesis using popped(2) by simp
    qed
  next
    fix s assume s: "s \<in> S \<and> s \<notin> insert u seen"
    then have "(0, s, []) \<in> set Q" using inv unfolding loop_inv_def by blast
    then show "(0, s, []) \<in> set ?Q" using keep s by blast
  next
    fix a b p' assume h: "a \<in> insert u seen \<and> b \<in> neighbours (store w a) \<and> b \<notin> insert u seen \<and>
        spath w S p' \<and> last p' = a"
    show "\<exists>l' q. (l', b, q) \<in> set ?Q \<and> l' \<le> int (length p')"
    proof (cases "a = u")
      case True
      then obtain l0 u0 p0 where e0: "(l0, u0, p0) \<in> set Q" "l0 \<le> int (length p') - 1"
        using inv_entry_below[OF inv, of p'] h u(1) by blast
      then have "l \<le> l0" using least by fastforce
      then have "l + 1 \<le> int (length p')" using e0(2) by simp
      moreover have "(l + 1, b, p @ [u]) \<in> set ?Q" using Q2 h True by auto
      ultimately show ?thesis by blast
    next
      case False
      then obtain l' q where "(l', b, q) \<in> set Q" "l' \<le> int (length p')"
        using inv h unfolding loop_inv_def by blast
      then show ?thesis using keep[of l' b q] h by blast
    qed
  next
    show "insert u seen \<inter> F = {}" using inv u(2) by (simp add: loop_inv_def)
  qed
qed

lemma inv_return:
  assumes inv: "loop_inv w S F Q seen"
    and pop: "heappop Q = Some ((l, u, p), Q')"
    and u: "u \<notin> seen" "u \<in> F"
  shows "is_route w S F (p @ [u]) \<and> (\<forall>q. is_route w S F q \<longrightarrow> length (p @ [u]) \<le> length q)"
proof -
  have Q: "set Q = insert (l, u, p) (set Q')" using heappop_set[OF pop] by simp
  have hQ: "heap_ok Q" using inv by (simp add: loop_inv_def)
  have least: "\<forall>e\<in>set Q. l \<le> fst e"
    using heappop_heap_ok[OF hQ pop] by auto
  have popped: "spath w S (p @ [u])" "l = int (length p)"
    using inv Q unfolding loop_inv_def by blast+
  have r: "is_route w S F (p @ [u])"
    using popped(1) u(2) by (simp add: is_route_def spath_def)
  have "length (p @ [u]) \<le> length q" if q: "is_route w S F q" for q
  proof -
    have "spath w S q" "last q \<notin> seen" "q \<noteq> []"
      using q inv by (auto simp: is_route_def spath_def loop_inv_def)
    then obtain l0 u0 p0 where e0: "(l0, u0, p0) \<in> set Q" "l0 \<le> int (length q) - 1"
      using inv_entry_below[OF inv, of q] by blast
    then have "l \<le> l0" using least by fastforce
    then show ?thesis using e0(2) popped(2) by simp
  qed
  then show ?thesis using r by blast
qed

lemma inv_empty:
  assumes inv: "loop_inv w S F [] seen"
  shows "\<not> is_route w S F q"
proof
  assume q: "is_route w S F q"
  have "spath w S q" "last q \<notin> seen"
    using q inv by (auto simp: is_route_def spath_def loop_inv_def)
  then show False using inv_entry_below[OF inv, of q] by simp
qed

lemma spath_last_in:
  assumes "S \<subseteq> U" "\<forall>a\<in>U. neighbours (store w a) \<subseteq> U" "spath w S p"
  shows "last p \<in> U"
proof -
  have "p \<noteq> []" using assms(3) by (simp add: spath_def)
  then show ?thesis using assms(3)
  proof (induction p rule: rev_nonempty_induct)
    case (single s)
    then show ?case using assms(1) by auto
  next
    case (snoc b q)
    then show ?case using assms(2) by (auto simp: spath_snoc)
  qed
qed

lemma route_loop_total:
  assumes fin: "finite U" and S: "S \<subseteq> U"
    and closed: "\<forall>a\<in>U. neighbours (store w a) \<subseteq> U"
    and it: "\<forall>X. finite X \<longrightarrow> set (it X) = X"
    and inv: "loop_inv w S F Q seen"
  shows "route_loop_post w S F (route_loop it w F Q seen)"
proof -
  have "wf (less_than <*lex*> less_than)" by (intro wf_lex_prod wf_less_than)
  then show ?thesis using inv
  proof (induction "(card (U - seen), length Q)" arbitrary: Q seen rule: wf_induct_rule)
    case less
    note inv = less.prems
    show ?case
    proof (cases "heappop Q")
      case None
      then have "Q = []" by (simp add: heappop_None)
      then have "\<forall>q. \<not> is_route w S F q" using inv_empty inv by blast
      then show ?thesis
        using None by (subst route_loop.simps) (simp add: route_loop_post_def)
    next
      case (Some a)
      then obtain l u p Q' where pop: "heappop Q = Some ((l, u, p), Q')"
        by (cases a) auto
      have Q: "set Q = insert (l, u, p) (set Q')" "length Q = Suc (length Q')"
        using heappop_set[OF pop] by simp_all
      have "spath w S (p @ [u])" using inv Q unfolding loop_inv_def by blast
      then have uU: "u \<in> U" using spath_last_in[OF S closed] by fastforce
      show ?thesis
      proof (cases "u \<in> seen")
        case True
        have "route_loop_post w S F (route_loop it w F Q' seen)"
          by (rule less.hyps[OF _ inv_skip[OF inv pop True]]) (simp add: Q)
        then show ?thesis
          using pop True by (subst route_loop.simps) simp
      next
        case False
        show ?thesis
        proof (cases "u \<in> F")
          case True
          then show ?thesis
            using pop False inv_return[OF inv pop False True]
            by (subst route_loop.simps) (simp add: route_loop_post_def)
        next
          case nF: False
          have "finite (neighbours (store w u))"
            using closed uU fin by (meson finite_subset)
          then have ns: "set (it (neighbours (store w u))) = neighbours (store w u)"
            using it by blast
          have "card (U - insert u seen) < card (U - seen)"
            using uU False fin by (metis Diff_insert card_Diff1_less DiffI finite_Diff)
          then have "route_loop_post w S F (route_loop it w F
                (foldl (\<lambda>q n. heappush q (l + 1, n, p @ [u])) Q' (it (neighbours (store w u))))
                (insert u seen))"
            by (intro less.hyps inv_push[OF inv pop False nF ns]) simp
          then show ?thesis
            using pop False nF by (subst route_loop.simps) simp
        qed
      qed
    qed
  qed
qed

lemma loop_inv_initial:
  assumes "set ss = S"
  shows "loop_inv w S F (map (\<lambda>s. (0, s, [])) ss) {}"
  unfolding loop_inv_def
proof (intro conjI allI impI)
  show "heap_ok (map (\<lambda>s. (0, s, [])) ss)"
  proof -
    have "(i - 1) div 2 < length ss" if "i < length ss" for i
      using that by auto
    then show ?thesis by (simp add: heap_ok_def)
  qed
qed (use assms in auto)

text \<open>The loop reads nothing of the state but the neighbour sets.\<close>

lemma route_loop_cong_Some:
  assumes a: "route_loop it w F Q seen = Some y"
    and b: "\<forall>r. neighbours (store w r) = neighbours (store w' r)"
  shows "route_loop it w' F Q seen = Some y"
proof -
  have "\<forall>w'. (\<forall>r. neighbours (store w r) = neighbours (store w' r)) \<longrightarrow>
          route_loop it w' F Q seen = Some y"
  proof (rule route_loop.raw_induct[where P = "\<lambda>it w F Q seen y.
      \<forall>w'. (\<forall>r. neighbours (store w r) = neighbours (store w' r)) \<longrightarrow>
          route_loop it w' F Q seen = Some y", OF _ a], intro allI impI)
    fix f it F Q seen y and w w' :: world
    assume IH: "\<And>it w F Q seen y. f it w F Q seen = Some y \<Longrightarrow>
        \<forall>w'. (\<forall>r. neighbours (store w r) = neighbours (store w' r)) \<longrightarrow>
          route_loop it w' F Q seen = Some y"
      and body: "(case heappop Q of
         None \<Rightarrow> Some (Inl (RouteNotFound ''No route found between given coordinates''))
       | Some ((len, satellite, path), queue1) \<Rightarrow>
           if satellite \<notin> seen then
             (if satellite \<in> F then Some (Inr (path @ [satellite]))
              else f it w F
                    (foldl (\<lambda>q neighbour. heappush q (len + 1, neighbour, path @ [satellite]))
                       queue1 (it (neighbours (store w satellite))))
                    (insert satellite seen))
           else f it w F queue1 seen) = Some y"
      and w': "\<forall>r. neighbours (store w r) = neighbours (store w' r)"
    show "route_loop it w' F Q seen = Some y"
    proof (cases "heappop Q")
      case None
      then show ?thesis using body by (subst route_loop.simps) simp
    next
      case (Some e)
      then obtain l u p Q' where pop: "heappop Q = Some ((l, u, p), Q')" by (cases e) auto
      have nb: "neighbours (store w' u) = neighbours (store w u)" using w' by simp
      show ?thesis
      proof (cases "u \<in> seen")
        case True
        then have "f it w F Q' seen = Some y" using body pop by simp
        then have "route_loop it w' F Q' seen = Some y" using IH w' by blast
        then show ?thesis using pop True by (subst route_loop.simps) simp
      next
        case False
        show ?thesis
        proof (cases "u \<in> F")
          case True
          then show ?thesis using body pop False by (subst route_loop.simps) simp
        next
          case nF: False
          let ?Q = "foldl (\<lambda>q neighbour. heappush q (l + 1, neighbour, p @ [u])) Q'
                       (it (neighbours (store w u)))"
          have "f it w F ?Q (insert u seen) = Some y" using body pop False nF by simp
          then have "route_loop it w' F ?Q (insert u seen) = Some y" using IH w' by blast
          then show ?thesis using pop False nF by (subst route_loop.simps) (simp add: nb)
        qed
      qed
    qed
  qed
  then show ?thesis using b by blast
qed

lemma route_loop_cong:
  assumes "\<forall>r. neighbours (store w r) = neighbours (store w' r)"
  shows "route_loop it w F Q seen = route_loop it w' F Q seen"
proof (cases "route_loop it w F Q seen")
  case None
  show ?thesis
  proof (cases "route_loop it w' F Q seen")
    case (Some y)
    then have "route_loop it w F Q seen = Some y"
      using route_loop_cong_Some[of it w' F Q seen y w] assms by simp
    then show ?thesis using Some by simp
  qed (simp add: None)
next
  case (Some y)
  then show ?thesis using route_loop_cong_Some[OF Some assms] by simp
qed


lemma visible_satellites_at_shape:
  "\<exists>res. visible_satellites_at w c = (res, w) \<and>
         (\<forall>V. res = Inr V \<longrightarrow> V \<subseteq> satellites w)"
  by (auto simp: visible_satellites_at_def split: sum.splits)

lemma route_total:
  assumes it: "\<forall>X. finite X \<longrightarrow> set (it X) = X"
    and cn: "closed_net w"
    and vs: "visible_satellites_at w start = (Inr S, w)" "S \<noteq> {}"
    and vf: "visible_satellites_at w finish = (Inr F, w)" "F \<noteq> {}"
  shows "\<exists>r. route it w start finish = Some (r, w) \<and> route_loop_post w S F (Some r)"
proof -
  have fin: "finite (satellites w)"
    and closed: "\<forall>a\<in>satellites w. neighbours (store w a) \<subseteq> satellites w"
    using cn by (simp_all add: closed_net_def)
  have S: "S \<subseteq> satellites w" using visible_satellites_at_shape[of w start] vs(1) by simp
  then have "finite S" using fin by (rule finite_subset)
  then have itS: "set (it S) = S" using it by blast
  have post: "route_loop_post w S F (route_loop it w F (map (\<lambda>s. (0, s, [])) (it S)) {})"
    by (rule route_loop_total[OF fin S closed it loop_inv_initial[OF itS]])
  then obtain r where r: "route_loop it w F (map (\<lambda>s. (0, s, [])) (it S)) {} = Some r"
    unfolding route_loop_post_def by blast
  have "route it w start finish = Some (r, w)"
    using vs vf r by (simp add: route_def)
  then show ?thesis using post r by simp
qed

lemma route_Inr_D:
  assumes "route it w start finish = Some (Inr path, w')"
  shows "\<exists>S F. visible_satellites_at w start = (Inr S, w) \<and> S \<noteq> {} \<and>
           visible_satellites_at w finish = (Inr F, w) \<and> F \<noteq> {}"
proof -
  obtain rs where rs: "visible_satellites_at w start = (rs, w)"
    using visible_satellites_at_shape[of w start] by blast
  obtain rf where rf: "visible_satellites_at w finish = (rf, w)"
    using visible_satellites_at_shape[of w finish] by blast
  show ?thesis
    using assms rs rf
    by (cases rs; cases rf) (auto simp: route_def split: if_splits)
qed

section \<open>The network built by connect\<close>

text \<open>
  What one \<open>connect\<close> does to the state, whatever the iteration order, and the
  invariants that every sequence of \<open>connect\<close> calls keeps.
\<close>

lemma satellites_foldl_connect_with [simp]:
  "satellites (foldl (\<lambda>w' n. connect_with w' n s) w ns) = satellites w"
  by (induction ns arbitrary: w) (simp_all add: connect_with_def)

lemma store_foldl_connect_with:
  "store (foldl (\<lambda>w' n. connect_with w' n s) w ns) r =
     (if r \<in> set ns then (store w r)\<lparr>neighbours := insert s (neighbours (store w r))\<rparr>
      else store w r)"
  by (induction ns arbitrary: w) (auto simp add: connect_with_def)

lemma connect_Inl:
  assumes "Satellite_init ''T'' (coordinates (store w s)) = Inl e"
  shows "connect it w s = (Inl e, w)"
  using assms by (simp add: connect_def visible_satellites_at_def)

lemma connect_Inr:
  assumes t: "Satellite_init ''T'' (coordinates (store w s)) = Inr t"
    and fin: "finite (satellites w)"
    and it: "\<forall>X. finite X \<longrightarrow> set (it X) = X"
    and V: "V = {m \<in> satellites w. lineofsight (store w m) t}"
    and w': "connect it w s = (res, w')"
  shows "res = Inr ()" "satellites w' = insert s (satellites w)"
    "store w' r = (store w r)\<lparr>neighbours :=
        (if r = s then V else if r \<in> V then insert s (neighbours (store w r))
         else neighbours (store w r))\<rparr>"
proof -
  have "finite V" using fin V by simp
  then have itV: "set (it V) = V" using it by blast
  have c: "connect it w s = (Inr (), foldl (\<lambda>w' n. connect_with w' n s)
      ((set_neighbours w s V)\<lparr>satellites := insert s (satellites w)\<rparr>) (it V))"
    using t V by (simp add: connect_def visible_satellites_at_def Let_def set_neighbours_def)
  show "res = Inr ()" using c w' by simp
  show "satellites w' = insert s (satellites w)"
    using c w' by (auto simp: set_neighbours_def)
  have "w' = foldl (\<lambda>w' n. connect_with w' n s)
      ((set_neighbours w s V)\<lparr>satellites := insert s (satellites w)\<rparr>) (it V)"
    using c w' by simp
  then show "store w' r = (store w r)\<lparr>neighbours :=
        (if r = s then V else if r \<in> V then insert s (neighbours (store w r))
         else neighbours (store w r))\<rparr>"
    by (auto simp: store_foldl_connect_with itV set_neighbours_def insert_absorb)
qed

lemma connect_cases:
  obtains (fail) e where "connect it w s = (Inl e, w)"
  | (ok) t where "Satellite_init ''T'' (coordinates (store w s)) = Inr t"
  using connect_Inl by (cases "Satellite_init ''T'' (coordinates (store w s))") blast+

lemma connects_induct:
  assumes "connects it w rs = (res, w')" "P w"
    and step: "\<And>w s r w1. P w \<Longrightarrow> connect it w s = (r, w1) \<Longrightarrow> P w1"
  shows "P w'"
  using assms(1,2)
proof (induction rs arbitrary: w)
  case Nil
  then show ?case by simp
next
  case (Cons s ss)
  obtain r w1 where c: "connect it w s = (r, w1)" by (cases "connect it w s")
  have P1: "P w1" using step[OF Cons.prems(2) c] .
  show ?case
  proof (cases r)
    case (Inl e)
    then show ?thesis using Cons.prems(1) c P1 by simp
  next
    case (Inr u)
    then have "connects it w1 ss = (res, w')" using Cons.prems(1) c by simp
    then show ?thesis using Cons.IH P1 by blast
  qed
qed

lemma connect_closed_net:
  assumes it: "\<forall>X. finite X \<longrightarrow> set (it X) = X"
    and inv: "closed_net w" and c: "connect it w s = (r, w1)"
  shows "closed_net w1"
proof (cases rule: connect_cases[of it w s])
  case (fail e)
  then show ?thesis using inv c by simp
next
  case (ok t)
  have fin: "finite (satellites w)" using inv by (simp add: closed_net_def)
  note r = connect_Inr[OF ok fin it refl c]
  show ?thesis
    unfolding closed_net_def
  proof (intro conjI ballI)
    show "finite (satellites w1)" using r(2) fin by simp
  next
    fix a assume "a \<in> satellites w1"
    then show "neighbours (store w1 a) \<subseteq> satellites w1"
      using inv unfolding r(2) r(3)[of a] closed_net_def by auto
  qed
qed

lemma connect_sym_inv:
  assumes it: "\<forall>X. finite X \<longrightarrow> set (it X) = X"
    and inv: "sym_inv w" and c: "connect it w s = (r, w1)"
  shows "sym_inv w1"
proof -
  have fin: "finite (satellites w)" and con: "\<And>r. constructed (store w r)"
    and sees: "\<And>a b. a \<in> satellites w \<Longrightarrow> b \<in> neighbours (store w a) \<Longrightarrow>
        b \<in> satellites w \<and> lineofsight (store w a) (store w b)"
    and sym: "\<And>a b. a \<in> satellites w \<Longrightarrow> b \<in> satellites w \<Longrightarrow>
        b \<in> neighbours (store w a) \<longleftrightarrow> a \<in> neighbours (store w b)"
    using inv unfolding sym_inv_def by blast+
  obtain t where t: "Satellite_init ''T'' (coordinates (store w s)) = Inr t"
    "spherical t = spherical (store w s)" "horizon t = horizon (store w s)"
    using constructed_probe[OF con] by blast
  define V where "V = {m \<in> satellites w. lineofsight (store w m) t}"
  have los_t: "lineofsight x t = lineofsight x (store w s)" for x
    by (rule lineofsight_cong) (simp_all add: t)
  have V: "m \<in> V \<longleftrightarrow> m \<in> satellites w \<and> lineofsight (store w m) (store w s)" for m
    by (simp add: V_def los_t)
  note r = connect_Inr[OF t(1) fin it V_def c]
  have los1: "lineofsight (store w1 a) (store w1 b) = lineofsight (store w a) (store w b)" for a b
    by (rule lineofsight_cong) (simp_all add: r(3))
  have nb: "neighbours (store w1 x) =
      (if x = s then V else if x \<in> V then insert s (neighbours (store w x))
       else neighbours (store w x))" for x
    by (simp add: r(3))
  show ?thesis
    unfolding sym_inv_def
  proof (intro conjI allI ballI)
    show "finite (satellites w1)" using r(2) fin by simp
  next
    fix x show "constructed (store w1 x)" using con by (simp add: r(3))
  next
    fix a b assume a: "a \<in> satellites w1" and b: "b \<in> neighbours (store w1 a)"
    show "b \<in> satellites w1"
      using a b sees[of a b] unfolding r(2) nb by (auto simp: V split: if_splits)
    show "lineofsight (store w1 a) (store w1 b)"
      using a b sees[of a b] lineofsight_commute[of "store w s"]
      unfolding r(2) nb los1 by (auto simp: V split: if_splits)
  next
    fix a b assume a: "a \<in> satellites w1" and b: "b \<in> satellites w1"
    show "b \<in> neighbours (store w1 a) \<longleftrightarrow> a \<in> neighbours (store w1 b)"
    proof (cases "a = s"; cases "b = s")
      assume "a = s" "b \<noteq> s"
      then show ?thesis
        using b sees[of b s] unfolding r(2) nb by (auto simp: V)
    next
      assume "a \<noteq> s" "b = s"
      then show ?thesis
        using a sees[of a s] unfolding r(2) nb by (auto simp: V)
    next
      assume "a \<noteq> s" "b \<noteq> s"
      then show ?thesis
        using a b sym[of a b] unfolding r(2) nb by auto
    qed simp
  qed
qed

lemma connect_no_self:
  assumes it: "\<forall>X. finite X \<longrightarrow> set (it X) = X"
    and fin: "finite (satellites w)"
    and inv: "\<forall>a\<in>satellites w. a \<notin> neighbours (store w a)"
    and s: "s \<notin> satellites w"
    and c: "connect it w s = (r, w1)"
  shows "finite (satellites w1) \<and> satellites w1 \<subseteq> insert s (satellites w) \<and>
         (\<forall>a\<in>satellites w1. a \<notin> neighbours (store w1 a))"
proof (cases rule: connect_cases[of it w s])
  case (fail e)
  then show ?thesis using inv fin c by auto
next
  case (ok t)
  note r = connect_Inr[OF ok fin it refl c]
  show ?thesis
    using inv fin s unfolding r(2) r(3) by auto
qed

lemma closed_net_connects:
  assumes "\<forall>X. finite X \<longrightarrow> set (it X) = X"
    and "connects it (Network_init objs) rs = (res, w)"
  shows "closed_net w"
proof (rule connects_induct[OF assms(2), where P = closed_net])
  show "closed_net (Network_init objs)" by (simp add: closed_net_def Network_init_def)
qed (rule connect_closed_net[OF assms(1)])

lemma sym_inv_connects:
  assumes "\<forall>X. finite X \<longrightarrow> set (it X) = X"
    and "\<forall>r. constructed (objs r)"
    and "connects it (Network_init objs) rs = (res, w)"
  shows "sym_inv w"
proof (rule connects_induct[OF assms(3), where P = sym_inv])
  show "sym_inv (Network_init objs)" using assms(2) by (simp add: sym_inv_def Network_init_def)
qed (rule connect_sym_inv[OF assms(1)])

lemma no_self_connects:
  assumes it: "\<forall>X. finite X \<longrightarrow> set (it X) = X"
    and "distinct rs" "set rs \<inter> satellites w = {}"
    and "finite (satellites w)" "\<forall>a\<in>satellites w. a \<notin> neighbours (store w a)"
    and "connects it w rs = (res, w')"
  shows "\<forall>a\<in>satellites w'. a \<notin> neighbours (store w' a)"
  using assms(2-)
proof (induction rs arbitrary: w)
  case Nil
  then show ?case by simp
next
  case (Cons s ss)
  obtain r w1 where c: "connect it w s = (r, w1)" by (cases "connect it w s")
  have s: "s \<notin> satellites w" using Cons.prems(2) by simp
  note n = connect_no_self[OF it Cons.prems(3,4) s c]
  show ?case
  proof (cases r)
    case (Inl e)
    then show ?thesis using Cons.prems(5) c n by simp
  next
    case (Inr u)
    then have cs: "connects it w1 ss = (res, w')" using Cons.prems(5) c by simp
    have "set ss \<inter> satellites w1 = {}" using n Cons.prems(1,2) by auto
    then show ?thesis using Cons.IH[OF _ _ _ _ cs] n Cons.prems(1) by simp
  qed
qed

lemma world_eqI:
  fixes a b :: world
  assumes "satellites a = satellites b" "\<And>r. store a r = store b r"
  shows "a = b"
  using assms by (cases a; cases b) (simp add: fun_eq_iff)

lemma connect_constructed:
  assumes con: "constructed (store w s)"
    and fin: "finite (satellites w)"
    and it: "\<forall>X. finite X \<longrightarrow> set (it X) = X"
    and V: "V = {m \<in> satellites w. lineofsight (store w m) (store w s)}"
  shows "connect it w s =
     (Inr (), \<lparr>store = (\<lambda>r. (store w r)\<lparr>neighbours :=
        (if r = s then V else if r \<in> V then insert s (neighbours (store w r))
         else neighbours (store w r))\<rparr>), satellites = insert s (satellites w)\<rparr>)"
proof -
  obtain t where t: "Satellite_init ''T'' (coordinates (store w s)) = Inr t"
    "spherical t = spherical (store w s)" "horizon t = horizon (store w s)"
    using constructed_probe[OF con] by blast
  have "lineofsight x t = lineofsight x (store w s)" for x
    by (rule lineofsight_cong) (simp_all add: t)
  then have V': "V = {m \<in> satellites w. lineofsight (store w m) t}" using V by simp
  obtain res w' where c: "connect it w s = (res, w')" by (cases "connect it w s")
  note r = connect_Inr[OF t(1) fin it V' c]
  have "w' = \<lparr>store = (\<lambda>r. (store w r)\<lparr>neighbours :=
        (if r = s then V else if r \<in> V then insert s (neighbours (store w r))
         else neighbours (store w r))\<rparr>), satellites = insert s (satellites w)\<rparr>"
    by (rule world_eqI) (simp_all add: r)
  then show ?thesis using c r(1) by simp
qed

lemma connect_constructedI:
  assumes "constructed (store w s)" "finite (satellites w)"
    and "\<forall>X. finite X \<longrightarrow> set (it X) = X"
    and "V = {m \<in> satellites w. lineofsight (store w m) (store w s)}"
    and "satellites w' = insert s (satellites w)"
    and "\<And>r. store w' r = (store w r)\<lparr>neighbours :=
        (if r = s then V else if r \<in> V then insert s (neighbours (store w r))
         else neighbours (store w r))\<rparr>"
  shows "connect it w s = (Inr (), w')"
  unfolding connect_constructed[OF assms(1-4)]
  by (simp, rule world_eqI[symmetric]) (simp_all add: assms(5,6))

text \<open>On a network that is finite and closed, \<open>route\<close> comes back.\<close>

lemma route_returns:
  assumes it: "\<forall>X. finite X \<longrightarrow> set (it X) = X"
    and cn: "closed_net w"
  shows "\<exists>r. route it w start finish = Some (r, w)"
proof -
  obtain rs where rs: "visible_satellites_at w start = (rs, w)"
    using visible_satellites_at_shape[of w start] by blast
  obtain rf where rf: "visible_satellites_at w finish = (rf, w)"
    using visible_satellites_at_shape[of w finish] by blast
  show ?thesis
  proof (cases rs)
    case (Inl e)
    then show ?thesis using rs by (simp add: route_def)
  next
    case S: (Inr S)
    show ?thesis
    proof (cases "S = {}")
      case True
      then show ?thesis using rs S by (simp add: route_def)
    next
      case nS: False
      show ?thesis
      proof (cases rf)
        case (Inl e)
        then show ?thesis using rs rf S nS by (simp add: route_def)
      next
        case F: (Inr F)
        show ?thesis
        proof (cases "F = {}")
          case True
          then show ?thesis using rs rf S nS F by (simp add: route_def)
        next
          case False
          then show ?thesis
            using route_total[OF it cn rs[unfolded S] nS rf[unfolded F] False] by blast
        qed
      qed
    qed
  qed
qed

section \<open>The example networks\<close>

text \<open>
  The example objects are as the constructor makes them, the example networks are what
  \<open>connect\<close> builds, and \<open>route\<close> on the chain returns the three satellites.
\<close>

lemma constructed_S1 [simp]: "constructed S1"
  by (simp add: constructed_def Satellite_init_def S1_def S1_coordinates_def Let_def)

lemma S1_simps [simp]: "neighbours S1 = {}" "S1\<lparr>neighbours := {}\<rparr> = S1"
  by (simp_all add: S1_def)

lemma S1_sees_S1: "lineofsight S1 S1"
  by (simp add: lineofsight_def S1_def Let_def)

lemma constructed_relay [simp]: "constructed (relay i lon)"
  by (simp add: constructed_def Satellite_init_def relay_def Let_def)

lemma relay_neighbours [simp]:
  "neighbours (relay i lon) = {}" "(relay i lon)\<lparr>neighbours := {}\<rparr> = relay i lon"
  by (simp_all add: relay_def)

lemma los_relay:
  "lineofsight (relay i 0) (relay j 90)" "lineofsight (relay i 90) (relay j 180)"
  "\<not> lineofsight (relay i 0) (relay j 180)"
  by (simp_all add: lineofsight_def relay_def Let_def)


lemma connects_two_S1:
  assumes it: "\<forall>X. finite X \<longrightarrow> set (it X) = X"
  shows "connects it (Network_init all_S1) [0, 1] = (Inr (), two_S1)"
proof -
  let ?w1 = "\<lparr>store = all_S1, satellites = {0}\<rparr>"
  have c1: "connect it (Network_init all_S1) 0 = (Inr (), ?w1)"
    by (rule connect_constructedI[OF _ _ it, where V = "{}"])
       (simp_all add: Network_init_def all_S1_def)
  have c2: "connect it ?w1 1 = (Inr (), two_S1)"
    by (rule connect_constructedI[OF _ _ it, where V = "{0}"])
       (auto simp: all_S1_def two_S1_def S1_sees_S1)
  show ?thesis using c1 c2 by simp
qed

lemma connects_self_S1:
  assumes it: "\<forall>X. finite X \<longrightarrow> set (it X) = X"
  shows "connects it (Network_init all_S1) [0, 0] = (Inr (), self_S1)"
proof -
  let ?w1 = "\<lparr>store = all_S1, satellites = {0}\<rparr>"
  have c1: "connect it (Network_init all_S1) 0 = (Inr (), ?w1)"
    by (rule connect_constructedI[OF _ _ it, where V = "{}"])
       (simp_all add: Network_init_def all_S1_def)
  have c2: "connect it ?w1 0 = (Inr (), self_S1)"
    by (rule connect_constructedI[OF _ _ it, where V = "{0}"])
       (auto simp: all_S1_def self_S1_def S1_sees_S1)
  show ?thesis using c1 c2 by simp
qed

lemma connects_chain:
  assumes it: "\<forall>X. finite X \<longrightarrow> set (it X) = X"
  shows "connects it (Network_init chain_objs) [0, 1, 2] = (Inr (), chain)"
proof -
  let ?w1 = "\<lparr>store = chain_objs, satellites = {0}\<rparr>"
  let ?w2 = "\<lparr>store = (\<lambda>r. (chain_objs r)\<lparr>neighbours :=
               (if r = 0 then {1} else if r = 1 then {0} else {})\<rparr>), satellites = {0, 1}\<rparr>"
  have nb: "neighbours (chain_objs r) = {}" for r
    by (simp add: chain_objs_def relay_def)
  have con: "constructed (chain_objs r)" for r
    by (simp add: chain_objs_def)
  have upd: "(chain_objs r)\<lparr>neighbours := {}\<rparr> = chain_objs r" for r
    by (simp add: chain_objs_def relay_def)
  have c1: "connect it (Network_init chain_objs) 0 = (Inr (), ?w1)"
    by (rule connect_constructedI[OF _ _ it, where V = "{}"])
       (simp_all add: Network_init_def con nb upd)
  have c2: "connect it ?w1 1 = (Inr (), ?w2)"
    by (rule connect_constructedI[OF _ _ it, where V = "{0}"])
       (auto simp: con nb chain_objs_def los_relay)
  have c3: "connect it ?w2 2 = (Inr (), chain)"
    by (rule connect_constructedI[OF _ _ it, where V = "{1}"])
       (auto simp: con nb chain_objs_def chain_def los_relay insert_commute)
  show ?thesis using c1 c2 c3 by simp
qed


lemma visible_chain:
  "visible_satellites_at chain ground_point = (Inr {0}, chain)"
  "visible_satellites_at chain far_point = (Inr {2}, chain)"
  by (auto simp: visible_satellites_at_def Satellite_init_def ground_point_def far_point_def
      Let_def chain_def chain_objs_def lineofsight_def relay_def)



lemma route_loop_chain:
  "route_loop sorted_list_of_set chain {2} [(0, 0, [])] {} = Some (Inr [0, 1, 2])"
proof -
  have "route_loop sorted_list_of_set chain {2} [(0, 0, [])] {} =
        route_loop sorted_list_of_set chain_graph {2} [(0, 0, [])] {}"
    by (rule route_loop_cong) (simp add: chain_def chain_graph_def bare_def)
  also have "\<dots> = Some (Inr [0, 1, 2])"
    by code_simp
  finally show ?thesis .
qed

lemma route_chain:
  "route sorted_list_of_set chain ground_point far_point = Some (Inr [0, 1, 2], chain)"
proof -
  have "sorted_list_of_set {0::nat} = [0]" by code_simp
  then show ?thesis
    by (simp add: route_def visible_chain route_loop_chain)
qed



section \<open>The defect in reset\<close>

text \<open>
  Every iteration of the loop of \<open>reset\<close> raises \<open>TypeError\<close>, so \<open>reset\<close> fails
  on every network that has a member, and changes nothing.
\<close>

lemma reset_raises:
  assumes "it (satellites w) \<noteq> []"
  shows "reset it w = (Inl TypeError, w)"
  using assms by (cases "it (satellites w)") (simp_all add: reset_def star_def)

section \<open>Claims about satellites and line of sight\<close>

text \<open>
  C4. The line-of-sight test is symmetric, for any two satellites whatever their
  spherical positions and horizon angles.
\<close>

theorem lineofsight_symmetric: "lineofsight a b = lineofsight b a"
proof -
  have "cos (phi (spherical a) - phi (spherical b)) = cos (phi (spherical b) - phi (spherical a))"
    by (metis cos_minus minus_diff_eq)
  then show ?thesis
    by (simp add: lineofsight_def Let_def mult.commute)
qed

text \<open>
  C5, as the code has it. The constructor checks nothing itself: it fails with
  \<open>ZeroDivisionError\<close> exactly when the radius 6371 + altitude is zero, and with
  \<open>ValueError\<close> exactly when the radius is not zero and the ratio 6371 / radius is
  larger than 1 in magnitude. Together: it fails exactly for an altitude strictly
  between -12742 and 0. For a radius of -6371 or less it builds a satellite.
\<close>

theorem Satellite_init_fails_iff:
  "(Satellite_init ident c = Inl ZeroDivisionError \<longleftrightarrow> 6371 + altitude c = 0) \<and>
   (Satellite_init ident c = Inl ValueError \<longleftrightarrow>
      6371 + altitude c \<noteq> 0 \<and> \<bar>6371 / (6371 + altitude c)\<bar> > 1) \<and>
   (isl (Satellite_init ident c) \<longleftrightarrow> - 12742 < altitude c \<and> altitude c < 0)"
proof -
  have a: "Satellite_init ident c = Inl ZeroDivisionError \<longleftrightarrow> 6371 + altitude c = 0"
    by (simp add: Satellite_init_def Let_def)
  have b: "Satellite_init ident c = Inl ValueError \<longleftrightarrow>
      6371 + altitude c \<noteq> 0 \<and> \<bar>6371 / (6371 + altitude c)\<bar> > 1"
    using sq_neg_iff[of "6371 / (6371 + altitude c)"]
    by (simp add: Satellite_init_def Let_def)
  have "isl (Satellite_init ident c) \<longleftrightarrow>
      (6371 + altitude c = 0 \<or> \<bar>6371 / (6371 + altitude c)\<bar> > 1)"
    using sq_neg_iff[of "6371 / (6371 + altitude c)"]
    by (simp add: Satellite_init_def Let_def)
  also have "\<dots> \<longleftrightarrow> - 12742 < altitude c \<and> altitude c < 0"
    using ratio_iff[of "6371 + altitude c"] by auto
  finally show ?thesis using a b by blast
qed

text \<open>Scenario 4 of the specification: an altitude of -7000 km is a domain error.\<close>

theorem Satellite_init_fails_iff_witness:
  "Satellite_init ''S4'' \<lparr>latitude = 0, longitude = 0, altitude = - 7000\<rparr> = Inl ValueError"
  using Satellite_init_fails_iff[of "''S4''" "\<lparr>latitude = 0, longitude = 0, altitude = - 7000\<rparr>"]
  by simp

text \<open>
  C5, as the claim states it, fails: at an altitude of -20000 km the radius is negative
  and the constructor returns a satellite.
\<close>

theorem Satellite_init_deep_counterexample:
  "6371 + altitude \<lparr>latitude = 0, longitude = 0, altitude = - 20000\<rparr> \<le> 0 \<and>
   \<not> isl (Satellite_init ''S'' \<lparr>latitude = 0, longitude = 0, altitude = - 20000\<rparr>)"
  by (simp add: Satellite_init_def Let_def)

section \<open>Claims about the network and routing\<close>

text \<open>
  C1. For every network built by a sequence of \<open>connect\<close> calls and every call of
  \<open>route\<close> that returns a path: the path is a path of the neighbour graph (each
  satellite is in the neighbour set of the one before it), its first satellite is in the
  set visible from \<open>start\<close>, its last satellite is in the set visible from
  \<open>finish\<close>, and no path from a start-visible to a finish-visible satellite has
  fewer edges. This holds whatever order the sets are iterated in.
\<close>

theorem route_shortest:
  assumes "\<forall>X. finite X \<longrightarrow> set (it X) = X"
    and "connects it (Network_init objs) rs = (res, w)"
    and "route it w start finish = Some (Inr path, w')"
  shows "\<exists>startset finishset.
           visible_satellites_at w start = (Inr startset, w) \<and>
           visible_satellites_at w finish = (Inr finishset, w) \<and>
           is_route w startset finishset path \<and>
           (\<forall>q. is_route w startset finishset q \<longrightarrow> hops path \<le> hops q)"
proof -
  obtain S F where v: "visible_satellites_at w start = (Inr S, w)" "S \<noteq> {}"
      "visible_satellites_at w finish = (Inr F, w)" "F \<noteq> {}"
    using route_Inr_D[OF assms(3)] by blast
  have cn: "closed_net w" by (rule closed_net_connects[OF assms(1,2)])
  obtain r where r: "route it w start finish = Some (r, w)" "route_loop_post w S F (Some r)"
    using route_total[OF assms(1) cn v] by blast
  then have "r = Inr path" using assms(3) by simp
  then have "is_route w S F path" "\<forall>q. is_route w S F q \<longrightarrow> length path \<le> length q"
    using r(2) by (auto simp: route_loop_post_def)
  then show ?thesis using v by (auto simp: hops_def diff_le_mono)
qed

text \<open>
  Scenario 3 of the specification: from below the first satellite of the chain to below
  the third, the route is the three satellites in turn.
\<close>

theorem route_shortest_witness:
  "connects sorted_list_of_set (Network_init chain_objs) [0, 1, 2] = (Inr (), chain) \<and>
   route sorted_list_of_set chain ground_point far_point = Some (Inr [0, 1, 2], chain) \<and>
   (\<exists>startset finishset.
       visible_satellites_at chain ground_point = (Inr startset, chain) \<and>
       visible_satellites_at chain far_point = (Inr finishset, chain) \<and>
       is_route chain startset finishset [0, 1, 2] \<and>
       (\<forall>q. is_route chain startset finishset q \<longrightarrow> hops [0, 1, 2] \<le> hops q))"
proof -
  have it: "\<forall>X. finite X \<longrightarrow> set (sorted_list_of_set X) = (X :: ref set)" by simp
  note c = connects_chain[OF it]
  show ?thesis
    using route_shortest[OF it c route_chain] c route_chain by simp
qed

text \<open>
  C3. After any sequence of \<open>connect\<close> calls that starts from the empty network, on
  satellite objects that are as their constructor made them, the neighbour relation is
  symmetric among the members. The same object may be connected more than once.
\<close>

theorem neighbours_symmetric:
  assumes "\<forall>X. finite X \<longrightarrow> set (it X) = X"
    and "\<forall>r. constructed (objs r)"
    and "connects it (Network_init objs) rs = (res, w)"
  shows "\<forall>a\<in>satellites w. \<forall>b\<in>satellites w.
           b \<in> neighbours (store w a) \<longleftrightarrow> a \<in> neighbours (store w b)"
  using sym_inv_connects[OF assms] unfolding sym_inv_def by blast

text \<open>
  Two satellites at the same coordinates, connected in turn, are each other's
  neighbour.
\<close>

theorem neighbours_symmetric_witness:
  "connects sorted_list_of_set (Network_init all_S1) [0, 1] = (Inr (), two_S1) \<and>
   0 \<in> satellites two_S1 \<and> 1 \<in> satellites two_S1 \<and>
   (1 \<in> neighbours (store two_S1 0)) = (0 \<in> neighbours (store two_S1 1)) \<and>
   1 \<in> neighbours (store two_S1 0)"
proof -
  have it: "\<forall>X. finite X \<longrightarrow> set (sorted_list_of_set X) = (X :: ref set)" by simp
  have con: "\<forall>r. constructed (all_S1 r)" by (simp add: all_S1_def)
  note c = connects_two_S1[OF it]
  have m: "0 \<in> satellites two_S1" "1 \<in> satellites two_S1" by (simp_all add: two_S1_def)
  have "(1 \<in> neighbours (store two_S1 0)) = (0 \<in> neighbours (store two_S1 1))"
    using neighbours_symmetric[OF it con c] m by blast
  moreover have "1 \<in> neighbours (store two_S1 0)" by (simp add: two_S1_def)
  ultimately show ?thesis using c m by simp
qed

text \<open>
  C8, as the code has it. After a sequence of \<open>connect\<close> calls from the empty network
  in which no satellite object occurs twice, so that each is not yet a member when it
  is connected, no member is in its own neighbour set.
\<close>

theorem no_self_neighbour:
  assumes "\<forall>X. finite X \<longrightarrow> set (it X) = X"
    and "distinct rs"
    and "connects it (Network_init objs) rs = (res, w)"
  shows "\<forall>a\<in>satellites w. a \<notin> neighbours (store w a)"
  by (rule no_self_connects[OF assms(1,2) _ _ _ assms(3)]) (simp_all add: Network_init_def)

text \<open>
  Neither of the two connected copies of \<open>S1\<close> is its own neighbour, though each
  would see a probe at its own coordinates.
\<close>

theorem no_self_neighbour_witness:
  "distinct [0 :: ref, 1] \<and>
   connects sorted_list_of_set (Network_init all_S1) [0, 1] = (Inr (), two_S1) \<and>
   0 \<in> satellites two_S1 \<and> 1 \<in> satellites two_S1 \<and>
   0 \<notin> neighbours (store two_S1 0) \<and> 1 \<notin> neighbours (store two_S1 1)"
proof -
  have it: "\<forall>X. finite X \<longrightarrow> set (sorted_list_of_set X) = (X :: ref set)" by simp
  have d: "distinct [0 :: ref, 1]" by simp
  note c = connects_two_S1[OF it]
  have m: "0 \<in> satellites two_S1" "1 \<in> satellites two_S1" by (simp_all add: two_S1_def)
  have "0 \<notin> neighbours (store two_S1 0)" "1 \<notin> neighbours (store two_S1 1)"
    using no_self_neighbour[OF it d c] m by blast+
  then show ?thesis using c m by simp
qed

text \<open>
  C8, as the claim states it for any sequence of calls, fails: \<open>connect\<close> does not
  look whether the satellite is a member already, and after \<open>connect\<close> of the same
  object twice the satellite is in its own neighbour set.
\<close>

theorem self_neighbour_counterexample:
  "connects sorted_list_of_set (Network_init all_S1) [0, 0] = (Inr (), self_S1) \<and>
   0 \<in> satellites self_S1 \<and> 0 \<in> neighbours (store self_S1 0)"
proof -
  have it: "\<forall>X. finite X \<longrightarrow> set (sorted_list_of_set X) = (X :: ref set)" by simp
  show ?thesis using connects_self_S1[OF it] by (simp add: self_S1_def)
qed




text \<open>
  C7. \<open>visible_satellites_at\<close> and \<open>route\<close> leave the state as they found it,
  whether they return or raise: the membership set and every neighbour set (the whole
  state) after the call are those before it. The probe is never a member. This holds
  in every state; and on a network built by \<open>connect\<close> calls \<open>route\<close> does come
  back, with a value or an exception, and with that state.
\<close>

theorem route_frame:
  "snd (visible_satellites_at w c) = w \<and>
   (\<forall>r w'. route it w start finish = Some (r, w') \<longrightarrow> w' = w) \<and>
   ((\<forall>X. finite X \<longrightarrow> set (it X) = X) \<and>
    (\<exists>objs rs res. connects it (Network_init objs) rs = (res, w)) \<longrightarrow>
    (\<exists>r. route it w start finish = Some (r, w)))"
proof -
  have t: "\<exists>r. route it w start finish = Some (r, w)"
    if "\<forall>X. finite X \<longrightarrow> set (it X) = X" "connects it (Network_init objs) rs = (res, w)"
    for objs rs res
    by (rule route_returns[OF that(1) closed_net_connects[OF that]])
  have v: "snd (visible_satellites_at w c) = w" for c
    using visible_satellites_at_shape[of w c] by auto
  have fr: "w' = w" if "route it w start finish = Some (r, w')" for r w'
  proof -
    obtain rs where rs: "visible_satellites_at w start = (rs, w)"
      using visible_satellites_at_shape[of w start] by blast
    obtain rf where rf: "visible_satellites_at w finish = (rf, w)"
      using visible_satellites_at_shape[of w finish] by blast
    show ?thesis
      using that rs rf by (cases rs; cases rf) (auto simp: route_def split: if_splits)
  qed
  show ?thesis
  proof (intro conjI allI impI)
    show "snd (visible_satellites_at w c) = w" by (rule v)
  next
    fix r w' assume "route it w start finish = Some (r, w')"
    then show "w' = w" by (rule fr)
  next
    assume h: "(\<forall>X. finite X \<longrightarrow> set (it X) = X) \<and>
      (\<exists>objs rs res. connects it (Network_init objs) rs = (res, w))"
    then obtain objs rs res where c: "connects it (Network_init objs) rs = (res, w)"
      by blast
    from h have i: "\<forall>X. finite X \<longrightarrow> set (it X) = X" by (rule conjunct1)
    show "\<exists>r. route it w start finish = Some (r, w)" by (rule t[OF i c])
  qed
qed

text \<open>
  On the chain, which \<open>connect\<close> builds, a call of \<open>route\<close> that returns a path and
  one that raises both come back with the chain, and its members are the three
  satellites.
\<close>

theorem route_frame_witness:
  "snd (visible_satellites_at chain ground_point) = chain \<and>
   connects sorted_list_of_set (Network_init chain_objs) [0, 1, 2] = (Inr (), chain) \<and>
   (\<exists>r. route sorted_list_of_set chain ground_point far_point = Some (r, chain)) \<and>
   (\<exists>r. route sorted_list_of_set chain north_pole far_point = Some (r, chain)) \<and>
   satellites chain = {0, 1, 2}"
proof -
  have it: "\<forall>X. finite X \<longrightarrow> set (sorted_list_of_set X) = (X :: ref set)" by simp
  note c = connects_chain[OF it]
  have pre: "(\<forall>X. finite X \<longrightarrow> set (sorted_list_of_set X) = (X :: ref set)) \<and>
      (\<exists>objs rs res. connects sorted_list_of_set (Network_init objs) rs = (res, chain))"
    using it c by blast
  note f1 = route_frame[of chain ground_point sorted_list_of_set ground_point far_point]
  note f2 = route_frame[of chain ground_point sorted_list_of_set north_pole far_point]
  have 1: "snd (visible_satellites_at chain ground_point) = chain"
    using f1 by (rule conjunct1)
  have 2: "\<exists>r. route sorted_list_of_set chain ground_point far_point = Some (r, chain)"
    using f1[THEN conjunct2, THEN conjunct2] pre by (rule mp)
  have 3: "\<exists>r. route sorted_list_of_set chain north_pole far_point = Some (r, chain)"
    using f2[THEN conjunct2, THEN conjunct2] pre by (rule mp)
  have 4: "satellites chain = {0, 1, 2}" by (simp add: chain_def)
  show ?thesis using 1 c 2 3 4 by (intro conjI)
qed

text \<open>
  C6 fails on the code: on the network of two satellites built by \<open>connect\<close>,
  \<open>reset\<close> raises \<open>TypeError\<close> and no neighbour set is recomputed. The claim is
  that \<open>reset\<close> succeeds on every non-empty network.
\<close>

theorem reset_TypeError:
  "connects sorted_list_of_set (Network_init all_S1) [0, 1] = (Inr (), two_S1) \<and>
   reset sorted_list_of_set two_S1 = (Inl TypeError, two_S1)"
proof -
  have it: "\<forall>X. finite X \<longrightarrow> set (sorted_list_of_set X) = (X :: ref set)" by simp
  have "set (sorted_list_of_set (satellites two_S1)) \<noteq> {}"
    by (simp add: two_S1_def)
  then have "sorted_list_of_set (satellites two_S1) \<noteq> []" by fastforce
  then show ?thesis using reset_raises connects_two_S1[OF it] by simp
qed

end
